theory Spec2Isabelle
  imports Main "HOL-Library.Word" "HOL-Library.Multiset" "HOL-Library.Sublist"
begin

unbundle bit_operations_syntax

section \<open>Bytes, integers and strings of the pack reader\<close>

text \<open>
  The reader of \<^verbatim>\<open>src/pack_reader.py\<close> works on Python \<^verbatim>\<open>bytes\<close> objects,
  on unbounded Python integers and on \<^verbatim>\<open>str\<close> values. A byte is an 8-bit word, a
  byte string a list of them, an integer a natural number (no value of the reader is
  ever negative), and a \<^verbatim>\<open>str\<close> the list of its Unicode code points.
\<close>

type_synonym byte = "8 word"
type_synonym bytes = "byte list"
type_synonym pystr = "nat list"

datatype error = ValueError | StructError | UnicodeDecodeError

text \<open>Sequencing of computations that may raise.\<close>

definition bind_err :: "error + 'a \<Rightarrow> ('a \<Rightarrow> error + 'b) \<Rightarrow> error + 'b" where
  "bind_err m f = (case m of Inl e \<Rightarrow> Inl e | Inr x \<Rightarrow> f x)"

text \<open>The slice \<^verbatim>\<open>b[i:j]\<close> for indices \<open>0 \<le> i\<close>, \<open>0 \<le> j\<close>.\<close>

definition slice :: "'a list \<Rightarrow> nat \<Rightarrow> nat \<Rightarrow> 'a list" where
  "slice b i j = take (j - i) (drop i b)"

text \<open>The little-endian value of a byte string (\<^verbatim>\<open>int.from_bytes(b, 'little')\<close>).\<close>

fun le_nat :: "bytes \<Rightarrow> nat" where
  "le_nat [] = 0"
| "le_nat (b # bs) = unat b + 256 * le_nat bs"

text \<open>
  \<^verbatim>\<open>struct.unpack('<I', b)[0]\<close>: the buffer must hold exactly 4 bytes, otherwise
  \<^verbatim>\<open>struct.error\<close> is raised.
\<close>

definition unpack_u32 :: "bytes \<Rightarrow> error + nat" where
  "unpack_u32 b = (if length b = 4 then Inr (le_nat b) else Inl StructError)"

text \<open>\<^verbatim>\<open>b.decode('ascii')\<close>: every byte must be below 128.\<close>

definition decode_ascii :: "bytes \<Rightarrow> error + string" where
  "decode_ascii b =
     (if \<forall>x \<in> set b. unat x < 128 then Inr (map (\<lambda>x. char_of (unat x)) b)
      else Inl UnicodeDecodeError)"

section \<open>The reader object\<close>

text \<open>The dictionary \<^verbatim>\<open>self.header\<close> built by \<^verbatim>\<open>read_header\<close>, key by key.\<close>

record pfh5_header =
  preamble :: string
  pack_type :: nat
  type_bitmask :: nat
  flags :: nat
  pf_index_count :: nat
  pf_index_size :: nat
  file_index_count :: nat
  file_index_size :: nat
  timestamp :: nat
  signature_pos :: nat
  has_extended_header :: bool
  index_encrypted :: bool
  has_timestamps :: bool
  data_padded :: bool

text \<open>
  Class \<^verbatim>\<open>PackFileEntry\<close>. The fields are prefixed, since \<open>size\<close> and \<open>timestamp\<close>
  are taken.
\<close>

record PackFileEntry =
  entry_path :: pystr
  entry_size :: nat
  entry_offset :: nat
  entry_timestamp :: "nat option"

text \<open>What \<^verbatim>\<open>read_file_index\<close> prints.\<close>

datatype message = EncryptedIndexWarning

text \<open>
  The state of a \<^verbatim>\<open>PFH5Reader\<close>: \<open>pack_file\<close> is the content of the file at
  \<^verbatim>\<open>self.pack_path\<close> (the constructor has checked that it exists), \<open>header\<close> is
  \<open>None\<close> while \<^verbatim>\<open>self.header\<close> is the empty dictionary, and \<open>stdout\<close> collects
  the printed lines.
\<close>

record reader =
  pack_file :: bytes
  header :: "pfh5_header option"
  entries :: "PackFileEntry list"
  file_data_offset :: nat
  stdout :: "message list"

definition PFH5Reader :: "bytes \<Rightarrow> reader" where
  "PFH5Reader file =
     \<lparr>pack_file = file, header = None, entries = [], file_data_offset = 0, stdout = []\<rparr>"

text \<open>\<^verbatim>\<open>f.seek(pos); f.read(n)\<close> on a file opened for reading.\<close>

definition seek_read :: "bytes \<Rightarrow> nat \<Rightarrow> nat \<Rightarrow> bytes" where
  "seek_read file pos n = take n (drop pos file)"

definition FLAG_EXTENDED_HEADER :: nat where "FLAG_EXTENDED_HEADER = 0x100000"
definition FLAG_INDEX_ENCRYPTED :: nat where "FLAG_INDEX_ENCRYPTED = 0x008000"
definition FLAG_TIMESTAMP_IN_INDEX :: nat where "FLAG_TIMESTAMP_IN_INDEX = 0x000400"
definition FLAG_DATA_PADDED :: nat where "FLAG_DATA_PADDED = 0x000010"

text \<open>The magic \<^verbatim>\<open>b'PFH5'\<close>.\<close>

definition PFH5 :: bytes where
  "PFH5 = [0x50, 0x46, 0x48, 0x35]"

section \<open>\<^verbatim>\<open>read_header\<close>\<close>

definition read_header :: "reader \<Rightarrow> error + (pfh5_header \<times> reader)" where
  "read_header r =
     (let header_data = seek_read (pack_file r) 0 32 in
      if length header_data < 32 then Inl ValueError
      else
        let preamble = slice header_data 0 4 in
        if preamble \<noteq> PFH5 then Inl ValueError
        else
          bind_err (unpack_u32 (slice header_data 4 8)) (\<lambda>type_bitmask.
          bind_err (unpack_u32 (slice header_data 8 12)) (\<lambda>pf_index_count.
          bind_err (unpack_u32 (slice header_data 12 16)) (\<lambda>pf_index_size.
          bind_err (unpack_u32 (slice header_data 16 20)) (\<lambda>file_index_count.
          bind_err (unpack_u32 (slice header_data 20 24)) (\<lambda>file_index_size.
          bind_err (unpack_u32 (slice header_data 24 28)) (\<lambda>timestamp.
          bind_err (unpack_u32 (slice header_data 28 32)) (\<lambda>signature_pos.
          let pack_type = type_bitmask AND 0x0F;
              flags = type_bitmask AND 0xFFFFFFF0
          in
          bind_err (decode_ascii preamble) (\<lambda>preamble_str.
          let h = \<lparr>preamble = preamble_str,
                   pack_type = pack_type,
                   type_bitmask = type_bitmask,
                   flags = flags,
                   pf_index_count = pf_index_count,
                   pf_index_size = pf_index_size,
                   file_index_count = file_index_count,
                   file_index_size = file_index_size,
                   timestamp = timestamp,
                   signature_pos = signature_pos,
                   has_extended_header = (flags AND FLAG_EXTENDED_HEADER \<noteq> 0),
                   index_encrypted = (flags AND FLAG_INDEX_ENCRYPTED \<noteq> 0),
                   has_timestamps = (flags AND FLAG_TIMESTAMP_IN_INDEX \<noteq> 0),
                   data_padded = (flags AND FLAG_DATA_PADDED \<noteq> 0)\<rparr>
          in Inr (h, r\<lparr>header := Some h\<rparr>))))))))))"

section \<open>Decoding UTF-8\<close>

text \<open>
  \<^verbatim>\<open>bytes.decode('utf-8', errors=...)\<close> is Python's built-in codec. It scans the
  bytes from the left; at each position it either decodes one well-formed sequence of
  1 to 4 bytes, or reports an ill-formed span (an invalid start byte, a start byte
  followed by a wrong continuation byte, or a sequence cut off by the end of the
  data) to the error handler and resumes behind the span. The handler \<^verbatim>\<open>'strict'\<close>
  raises, \<^verbatim>\<open>'ignore'\<close> contributes nothing for the span, and \<^verbatim>\<open>'replace'\<close>
  contributes U+FFFD.
\<close>

datatype errors = Strict | Ignore | Replace

definition is_cont :: "byte \<Rightarrow> bool" where
  "is_cont b = (0x80 \<le> unat b \<and> unat b < 0xC0)"

definition emit :: "nat \<Rightarrow> error + pystr \<Rightarrow> error + pystr" where
  "emit c r = (case r of Inl e \<Rightarrow> Inl e | Inr s \<Rightarrow> Inr (c # s))"

fun handle_error :: "errors \<Rightarrow> error + pystr \<Rightarrow> error + pystr" where
  "handle_error Strict r = Inl UnicodeDecodeError"
| "handle_error Ignore r = r"
| "handle_error Replace r = emit 0xFFFD r"

definition cp2 :: "byte \<Rightarrow> byte \<Rightarrow> nat" where
  "cp2 c c2 = (unat c - 0xC0) * 64 + (unat c2 - 0x80)"

definition cp3 :: "byte \<Rightarrow> byte \<Rightarrow> byte \<Rightarrow> nat" where
  "cp3 c c2 c3 = (unat c - 0xE0) * 4096 + (unat c2 - 0x80) * 64 + (unat c3 - 0x80)"

definition cp4 :: "byte \<Rightarrow> byte \<Rightarrow> byte \<Rightarrow> byte \<Rightarrow> nat" where
  "cp4 c c2 c3 c4 =
     (unat c - 0xF0) * 262144 + (unat c2 - 0x80) * 4096 + (unat c3 - 0x80) * 64
       + (unat c4 - 0x80)"

text \<open>The second byte is no continuation of the three-byte start \<open>c\<close>
  (also: overlong forms after E0, surrogates after ED).\<close>

definition bad2_of3 :: "byte \<Rightarrow> byte \<Rightarrow> bool" where
  "bad2_of3 c c2 =
     (\<not> is_cont c2 \<or> (unat c = 0xE0 \<and> unat c2 < 0xA0) \<or> (unat c = 0xED \<and> 0xA0 \<le> unat c2))"

text \<open>The same for a four-byte start (overlong after F0, beyond U+10FFFF after F4).\<close>

definition bad2_of4 :: "byte \<Rightarrow> byte \<Rightarrow> bool" where
  "bad2_of4 c c2 =
     (\<not> is_cont c2 \<or> (unat c = 0xF0 \<and> unat c2 < 0x90) \<or> (unat c = 0xF4 \<and> 0x90 \<le> unat c2))"

fun utf8_decode :: "errors \<Rightarrow> bytes \<Rightarrow> error + pystr" where
  "utf8_decode h [] = Inr []"
| "utf8_decode h (c # rest) =
     (if unat c < 0x80 then emit (unat c) (utf8_decode h rest)
      else if unat c < 0xC2 then handle_error h (utf8_decode h rest)
      else if unat c < 0xE0 then
        (case rest of
           [] \<Rightarrow> handle_error h (Inr [])
         | c2 # rest2 \<Rightarrow>
             if is_cont c2 then emit (cp2 c c2) (utf8_decode h rest2)
             else handle_error h (utf8_decode h rest))
      else if unat c < 0xF0 then
        (case rest of
           [] \<Rightarrow> handle_error h (Inr [])
         | c2 # rest2 \<Rightarrow>
             if bad2_of3 c c2 then handle_error h (utf8_decode h rest)
             else
               (case rest2 of
                  [] \<Rightarrow> handle_error h (Inr [])
                | c3 # rest3 \<Rightarrow>
                    if is_cont c3 then emit (cp3 c c2 c3) (utf8_decode h rest3)
                    else handle_error h (utf8_decode h rest2)))
      else if unat c < 0xF5 then
        (case rest of
           [] \<Rightarrow> handle_error h (Inr [])
         | c2 # rest2 \<Rightarrow>
             if bad2_of4 c c2 then handle_error h (utf8_decode h rest)
             else
               (case rest2 of
                  [] \<Rightarrow> handle_error h (Inr [])
                | c3 # rest3 \<Rightarrow>
                    if \<not> is_cont c3 then handle_error h (utf8_decode h rest2)
                    else
                      (case rest3 of
                         [] \<Rightarrow> handle_error h (Inr [])
                       | c4 # rest4 \<Rightarrow>
                           if is_cont c4 then emit (cp4 c c2 c3 c4) (utf8_decode h rest4)
                           else handle_error h (utf8_decode h rest3))))
      else handle_error h (utf8_decode h rest))"

section \<open>\<^verbatim>\<open>read_file_index\<close>\<close>

text \<open>
  \<^verbatim>\<open>data.find(b'\x00', pos)\<close>: the lowest index at or behind \<open>pos\<close> that holds the
  byte, \<open>None\<close> for Python's \<open>-1\<close>.
\<close>

fun index_of :: "byte \<Rightarrow> bytes \<Rightarrow> nat option" where
  "index_of b [] = None"
| "index_of b (x # xs) = (if x = b then Some 0 else map_option Suc (index_of b xs))"

definition find_byte :: "bytes \<Rightarrow> byte \<Rightarrow> nat \<Rightarrow> nat option" where
  "find_byte data b pos = map_option (\<lambda>i. pos + i) (index_of b (drop pos data))"

text \<open>The advance of \<^verbatim>\<open>current_offset\<close> behind a member of size \<open>sz\<close>.\<close>

definition next_offset :: "pfh5_header \<Rightarrow> nat \<Rightarrow> nat \<Rightarrow> nat" where
  "next_offset h current_offset sz =
     (if data_padded h then current_offset + ((sz + 7) div 8) * 8
      else current_offset + sz)"

text \<open>
  One pass through the body of the \<^verbatim>\<open>for\<close> loop, from the cursor \<open>pos\<close> and the
  running offset: \<open>Inr None\<close> is a \<^verbatim>\<open>break\<close>, \<open>Inr (Some (entry, pos', offset'))\<close> the
  appended entry with the new cursor and running offset, \<open>Inl\<close> an exception.
\<close>

definition read_entry ::
  "pfh5_header \<Rightarrow> bytes \<Rightarrow> nat \<Rightarrow> nat \<Rightarrow> error + (PackFileEntry \<times> nat \<times> nat) option" where
  "read_entry h file_index_data pos current_offset =
     (if pos \<ge> length file_index_data then Inr None
      else
        case find_byte file_index_data 0 pos of
          None \<Rightarrow> Inr None
        | Some path_end \<Rightarrow>
            bind_err (utf8_decode Ignore (slice file_index_data pos path_end)) (\<lambda>file_path.
            let pos = path_end + 1 in
            if pos + 4 > length file_index_data then Inr None
            else
              bind_err (unpack_u32 (slice file_index_data pos (pos + 4))) (\<lambda>sz.
              let pos = pos + 4 in
              if has_timestamps h then
                if pos + 4 > length file_index_data then Inr None
                else
                  bind_err (unpack_u32 (slice file_index_data pos (pos + 4))) (\<lambda>timestamp.
                  let pos = pos + 4 in
                  Inr (Some (\<lparr>entry_path = file_path, entry_size = sz,
                              entry_offset = current_offset,
                              entry_timestamp = Some timestamp\<rparr>,
                            pos, next_offset h current_offset sz)))
              else
                Inr (Some (\<lparr>entry_path = file_path, entry_size = sz,
                            entry_offset = current_offset, entry_timestamp = None\<rparr>,
                          pos, next_offset h current_offset sz)))))"

text \<open>
  The loop \<^verbatim>\<open>for _ in range(file_index_count)\<close>, with the remaining number of
  rounds, the cursor, the running offset and the list \<open>es\<close> of entries built so far.
\<close>

fun parse_entries ::
  "pfh5_header \<Rightarrow> bytes \<Rightarrow> nat \<Rightarrow> nat \<Rightarrow> nat \<Rightarrow> PackFileEntry list
    \<Rightarrow> error + PackFileEntry list" where
  "parse_entries h file_index_data 0 pos current_offset es = Inr es"
| "parse_entries h file_index_data (Suc n) pos current_offset es =
     (case read_entry h file_index_data pos current_offset of
        Inl e \<Rightarrow> Inl e
      | Inr None \<Rightarrow> Inr es
      | Inr (Some (entry, pos', current_offset')) \<Rightarrow>
          parse_entries h file_index_data n pos' current_offset' (es @ [entry]))"

definition header_size :: "pfh5_header \<Rightarrow> nat" where
  "header_size h = (if has_extended_header h then 32 + 20 else 32)"

text \<open>The part of \<^verbatim>\<open>read_file_index\<close> behind the header check.\<close>

definition read_index_with :: "pfh5_header \<Rightarrow> reader \<Rightarrow> error + (PackFileEntry list \<times> reader)" where
  "read_index_with h r =
     (if index_encrypted h then
        Inr ([], r\<lparr>stdout := stdout r @ [EncryptedIndexWarning]\<rparr>)
      else
        let file_index_data =
              seek_read (pack_file r) (header_size h + pf_index_size h) (file_index_size h)
        in
        bind_err (parse_entries h file_index_data (file_index_count h) 0 0 []) (\<lambda>es.
        Inr (es, r\<lparr>entries := es,
                    file_data_offset := header_size h + pf_index_size h + file_index_size h\<rparr>)))"

definition read_file_index :: "reader \<Rightarrow> error + (PackFileEntry list \<times> reader)" where
  "read_file_index r =
     (case header r of
        None \<Rightarrow> bind_err (read_header r) (\<lambda>(h, r'). read_index_with h r')
      | Some h \<Rightarrow> read_index_with h r)"

section \<open>\<^verbatim>\<open>extract_file\<close>\<close>

text \<open>
  The files written by the reader are a map from output path to content; the call
  without \<^verbatim>\<open>output_path\<close> passes \<open>None\<close>.
\<close>

definition extract_file ::
  "reader \<Rightarrow> PackFileEntry \<Rightarrow> string option \<Rightarrow> (string \<rightharpoonup> bytes)
    \<Rightarrow> error + (bytes \<times> reader \<times> (string \<rightharpoonup> bytes))" where
  "extract_file r entry output_path fs =
     bind_err (if entries r = [] then map_sum id snd (read_file_index r) else Inr r) (\<lambda>r'.
     let data = seek_read (pack_file r') (file_data_offset r' + entry_offset entry)
                  (entry_size entry)
     in Inr (data, r',
             case output_path of None \<Rightarrow> fs | Some p \<Rightarrow> fs(p \<mapsto> data)))"

section \<open>\<^verbatim>\<open>get_file_info\<close>\<close>

text \<open>
  \<^verbatim>\<open>Path(entry.path).suffix\<close> of pathlib (Python 3.4 to 3.13) with the path syntax
  of POSIX: the name is the last
  component between slashes that is neither empty nor a single dot, and the suffix
  is the part of the name from its last dot on, when that dot is neither the first
  nor the last character of the name.
\<close>

fun split_at :: "nat \<Rightarrow> pystr \<Rightarrow> pystr list" where
  "split_at c [] = [[]]"
| "split_at c (x # xs) =
     (if x = c then [] # split_at c xs
      else (case split_at c xs of [] \<Rightarrow> [[x]] | y # ys \<Rightarrow> (x # y) # ys))"

fun rfind :: "nat \<Rightarrow> pystr \<Rightarrow> nat option" where
  "rfind c [] = None"
| "rfind c (x # xs) =
     (case rfind c xs of
        Some i \<Rightarrow> Some (Suc i)
      | None \<Rightarrow> if x = c then Some 0 else None)"

definition path_name :: "pystr \<Rightarrow> pystr" where
  "path_name p =
     (case filter (\<lambda>x. x \<noteq> [] \<and> x \<noteq> [46]) (split_at 47 p) of
        [] \<Rightarrow> []
      | x # xs \<Rightarrow> last (x # xs))"

definition suffix_of :: "pystr \<Rightarrow> pystr" where
  "suffix_of p =
     (let name = path_name p in
      case rfind 46 name of
        None \<Rightarrow> []
      | Some i \<Rightarrow> if 0 < i \<and> i + 1 < length name then drop i name else [])"

text \<open>The key \<^verbatim>\<open>'.no_extension'\<close>.\<close>

definition no_extension :: pystr where
  "no_extension = [46, 110, 111, 95, 101, 120, 116, 101, 110, 115, 105, 111, 110]"

text \<open>The values of the dictionary \<^verbatim>\<open>extensions\<close>.\<close>

record ext_info =
  ext_count :: nat
  ext_size :: nat

text \<open>
  The key under which an entry is counted. \<^verbatim>\<open>str.lower\<close> follows the case tables
  of Unicode, which are not part of the reader: it is the parameter \<open>lower\<close>.
\<close>

definition ext_key :: "(pystr \<Rightarrow> pystr) \<Rightarrow> PackFileEntry \<Rightarrow> pystr" where
  "ext_key lower entry =
     (let ext = lower (suffix_of (entry_path entry)) in
      if ext = [] then no_extension else ext)"

text \<open>The loop over \<^verbatim>\<open>self.entries\<close>, on the dictionary and the running total.\<close>

fun categorize ::
  "(pystr \<Rightarrow> pystr) \<Rightarrow> PackFileEntry list \<Rightarrow> (pystr \<rightharpoonup> ext_info) \<Rightarrow> nat
    \<Rightarrow> (pystr \<rightharpoonup> ext_info) \<times> nat" where
  "categorize lower [] extensions total_size = (extensions, total_size)"
| "categorize lower (entry # es) extensions total_size =
     (let ext = ext_key lower entry;
          extensions =
            (if extensions ext = None
             then extensions(ext \<mapsto> \<lparr>ext_count = 0, ext_size = 0\<rparr>) else extensions);
          info = (case extensions ext of
                    None \<Rightarrow> \<lparr>ext_count = 0, ext_size = 0\<rparr> | Some i \<Rightarrow> i);
          info = info\<lparr>ext_count := ext_count info + 1\<rparr>;
          info = info\<lparr>ext_size := ext_size info + entry_size entry\<rparr>
      in categorize lower es (extensions(ext \<mapsto> info)) (total_size + entry_size entry))"

record file_info =
  file_count :: nat
  total_size :: nat
  extensions :: "pystr \<rightharpoonup> ext_info"
  info_header :: "pfh5_header option"


section \<open>The index layout of the specification\<close>

text \<open>
  One record of the member index as the specification lays it out: the bytes of the
  path, a zero byte, the 4 bytes of the size and, when the timestamps flag is set,
  the 4 bytes of the timestamp.
\<close>

record index_record =
  rec_path :: bytes
  rec_size :: bytes
  rec_timestamp :: bytes

definition encode_record :: "index_record \<Rightarrow> bytes" where
  "encode_record rc = rec_path rc @ [0] @ rec_size rc @ rec_timestamp rc"

definition well_formed :: "pfh5_header \<Rightarrow> index_record \<Rightarrow> bool" where
  "well_formed h rc =
     (0 \<notin> set (rec_path rc) \<and> length (rec_size rc) = 4
      \<and> length (rec_timestamp rc) = (if has_timestamps h then 4 else 0))"

text \<open>The text of a path: its bytes decoded with the handler \<^verbatim>\<open>'ignore'\<close>.\<close>

definition path_text :: "bytes \<Rightarrow> pystr" where
  "path_text b = (case utf8_decode Ignore b of Inl e \<Rightarrow> [] | Inr s \<Rightarrow> s)"

definition entry_of :: "pfh5_header \<Rightarrow> index_record \<Rightarrow> nat \<Rightarrow> PackFileEntry" where
  "entry_of h rc off =
     \<lparr>entry_path = path_text (rec_path rc), entry_size = le_nat (rec_size rc),
      entry_offset = off,
      entry_timestamp = (if has_timestamps h then Some (le_nat (rec_timestamp rc)) else None)\<rparr>"

text \<open>The descriptors of a sequence of records, the first at offset \<open>off\<close>.\<close>

fun entries_of :: "pfh5_header \<Rightarrow> index_record list \<Rightarrow> nat \<Rightarrow> PackFileEntry list" where
  "entries_of h [] off = []"
| "entries_of h (rc # rcs) off =
     entry_of h rc off # entries_of h rcs (next_offset h off (le_nat (rec_size rc)))"

text \<open>
  A byte string that holds no complete record at its start: its terminator is
  missing, or fewer bytes than the size (and timestamp) field needs follow it.
\<close>

definition truncated :: "pfh5_header \<Rightarrow> bytes \<Rightarrow> bool" where
  "truncated h b =
     (length (dropWhile (\<lambda>x. x \<noteq> 0) b) < (if has_timestamps h then 9 else 5))"

text \<open>The next multiple of 8 at or above a number.\<close>

definition round_up8 :: "nat \<Rightarrow> nat" where
  "round_up8 n = (if n mod 8 = 0 then n else n + (8 - n mod 8))"

text \<open>
  The header that \<^verbatim>\<open>read_file_index\<close> works with on a reader \<open>r\<close>, and the reader
  \<open>r1\<close> behind its first statement: the stored header if there is one, otherwise the
  result of \<^verbatim>\<open>read_header\<close>.
\<close>

definition header_known :: "reader \<Rightarrow> pfh5_header \<Rightarrow> reader \<Rightarrow> bool" where
  "header_known r h r1 =
     (case header r of
        Some h' \<Rightarrow> h' = h \<and> r1 = r
      | None \<Rightarrow> read_header r = Inr (h, r1))"

section \<open>An example archive\<close>

text \<open>
  Two members, no flags: the index holds \<^verbatim>\<open>a.txt\<close> of size 3 and \<^verbatim>\<open>b.txt\<close> of
  size 2, the data region holds \<^verbatim>\<open>foo\<close> and \<^verbatim>\<open>hi\<close>.
\<close>

definition ex_index :: bytes where
  "ex_index = [0x61, 0x2E, 0x74, 0x78, 0x74, 0, 3, 0, 0, 0,
               0x62, 0x2E, 0x74, 0x78, 0x74, 0, 2, 0, 0, 0]"

definition ex_head :: bytes where
  "ex_head = [0x50, 0x46, 0x48, 0x35, 0, 0, 0, 0, 0, 0, 0, 0, 0, 0, 0, 0,
              2, 0, 0, 0, 20, 0, 0, 0, 0, 0, 0, 0, 0, 0, 0, 0]"

definition ex_file :: bytes where
  "ex_file = ex_head @ ex_index @ [0x66, 0x6F, 0x6F, 0x68, 0x69]"

definition ex_header :: pfh5_header where
  "ex_header =
     \<lparr>preamble = ''PFH5'', pack_type = 0, type_bitmask = 0, flags = 0,
      pf_index_count = 0, pf_index_size = 0, file_index_count = 2, file_index_size = 20,
      timestamp = 0, signature_pos = 0, has_extended_header = False,
      index_encrypted = False, has_timestamps = False, data_padded = False\<rparr>"

definition ex_records :: "index_record list" where
  "ex_records =
     [\<lparr>rec_path = [0x61, 0x2E, 0x74, 0x78, 0x74], rec_size = [3, 0, 0, 0], rec_timestamp = []\<rparr>,
      \<lparr>rec_path = [0x62, 0x2E, 0x74, 0x78, 0x74], rec_size = [2, 0, 0, 0], rec_timestamp = []\<rparr>]"

definition ex_entries :: "PackFileEntry list" where
  "ex_entries =
     [\<lparr>entry_path = [97, 46, 116, 120, 116], entry_size = 3, entry_offset = 0,
       entry_timestamp = None\<rparr>,
      \<lparr>entry_path = [98, 46, 116, 120, 116], entry_size = 2, entry_offset = 3,
       entry_timestamp = None\<rparr>]"

definition ex_ready :: reader where
  "ex_ready =
     \<lparr>pack_file = ex_file, header = Some ex_header, entries = ex_entries,
      file_data_offset = 52, stdout = []\<rparr>"

text \<open>
  The same archive with its index cut off behind the path of the second member
  (the header declares 16 bytes of index): the size field of \<^verbatim>\<open>b.txt\<close> is missing.
\<close>

definition tr_head :: bytes where
  "tr_head = [0x50, 0x46, 0x48, 0x35, 0, 0, 0, 0, 0, 0, 0, 0, 0, 0, 0, 0,
              2, 0, 0, 0, 16, 0, 0, 0, 0, 0, 0, 0, 0, 0, 0, 0]"

definition tr_index :: bytes where
  "tr_index = [0x61, 0x2E, 0x74, 0x78, 0x74, 0, 3, 0, 0, 0,
               0x62, 0x2E, 0x74, 0x78, 0x74, 0]"

definition tr_file :: bytes where
  "tr_file = tr_head @ tr_index @ [0x66, 0x6F, 0x6F, 0x68, 0x69]"

definition tr_header :: pfh5_header where
  "tr_header = ex_header\<lparr>file_index_size := 16\<rparr>"

definition tr_entries :: "PackFileEntry list" where
  "tr_entries =
     [\<lparr>entry_path = [97, 46, 116, 120, 116], entry_size = 3, entry_offset = 0,
       entry_timestamp = None\<rparr>]"

text \<open>
  The example archive with the data-padded flag (bit 4) set; each member of the data
  region is filled up to 8 bytes.
\<close>

definition pad_head :: bytes where
  "pad_head = [0x50, 0x46, 0x48, 0x35, 0x10, 0, 0, 0, 0, 0, 0, 0, 0, 0, 0, 0,
               2, 0, 0, 0, 20, 0, 0, 0, 0, 0, 0, 0, 0, 0, 0, 0]"

definition pad_file :: bytes where
  "pad_file = pad_head @ ex_index
                @ [0x66, 0x6F, 0x6F, 0, 0, 0, 0, 0, 0x68, 0x69, 0, 0, 0, 0, 0, 0]"

definition pad_header :: pfh5_header where
  "pad_header = ex_header\<lparr>type_bitmask := 16, flags := 16, data_padded := True\<rparr>"

definition pad_entries :: "PackFileEntry list" where
  "pad_entries =
     [\<lparr>entry_path = [97, 46, 116, 120, 116], entry_size = 3, entry_offset = 0,
       entry_timestamp = None\<rparr>,
      \<lparr>entry_path = [98, 46, 116, 120, 116], entry_size = 2, entry_offset = 8,
       entry_timestamp = None\<rparr>]"

text \<open>
  An archive whose only member \<^verbatim>\<open>a.txt\<close> is declared with 1000 bytes, of which the
  file holds two.
\<close>

definition big_head :: bytes where
  "big_head = [0x50, 0x46, 0x48, 0x35, 0, 0, 0, 0, 0, 0, 0, 0, 0, 0, 0, 0,
               1, 0, 0, 0, 10, 0, 0, 0, 0, 0, 0, 0, 0, 0, 0, 0]"

definition big_index :: bytes where
  "big_index = [0x61, 0x2E, 0x74, 0x78, 0x74, 0, 0xE8, 3, 0, 0]"

definition big_file :: bytes where
  "big_file = big_head @ big_index @ [0x68, 0x69]"

definition big_header :: pfh5_header where
  "big_header = ex_header\<lparr>file_index_count := 1, file_index_size := 10\<rparr>"

definition big_record :: index_record where
  "big_record =
     \<lparr>rec_path = [0x61, 0x2E, 0x74, 0x78, 0x74], rec_size = [0xE8, 3, 0, 0], rec_timestamp = []\<rparr>"

definition big_entry :: PackFileEntry where
  "big_entry =
     \<lparr>entry_path = [97, 46, 116, 120, 116], entry_size = 1000, entry_offset = 0,
      entry_timestamp = None\<rparr>"

definition big_ready :: reader where
  "big_ready =
     \<lparr>pack_file = big_file, header = Some big_header, entries = [big_entry],
      file_data_offset = 42, stdout = []\<rparr>"

text \<open>The example archive with the index-encrypted flag (bit 15) set.\<close>

definition enc_head :: bytes where
  "enc_head = [0x50, 0x46, 0x48, 0x35, 0, 0x80, 0, 0, 0, 0, 0, 0, 0, 0, 0, 0,
               2, 0, 0, 0, 20, 0, 0, 0, 0, 0, 0, 0, 0, 0, 0, 0]"

definition enc_file :: bytes where
  "enc_file = enc_head @ ex_index @ [0x66, 0x6F, 0x6F, 0x68, 0x69]"

definition enc_header :: pfh5_header where
  "enc_header = ex_header\<lparr>type_bitmask := 0x8000, flags := 0x8000, index_encrypted := True\<rparr>"

text \<open>A header of 32 bytes whose type-and-flags field is \<open>0x0000000F\<close>, and one with a wrong magic.\<close>

definition kind_file :: bytes where
  "kind_file = [0x50, 0x46, 0x48, 0x35, 0x0F, 0, 0, 0, 0, 0, 0, 0, 0, 0, 0, 0,
                0, 0, 0, 0, 0, 0, 0, 0, 0, 0, 0, 0, 0, 0, 0, 0]"

definition kind_header :: pfh5_header where
  "kind_header =
     ex_header\<lparr>pack_type := 15, type_bitmask := 15, file_index_count := 0,
       file_index_size := 0\<rparr>"

definition pfh4_file :: bytes where
  "pfh4_file = [0x50, 0x46, 0x48, 0x34, 0, 0, 0, 0, 0, 0, 0, 0, 0, 0, 0, 0,
                0, 0, 0, 0, 0, 0, 0, 0, 0, 0, 0, 0, 0, 0, 0, 0]"

text \<open>
  An index record whose path \<^verbatim>\<open>a\xffb\<close> is not valid UTF-8, and its descriptor.
\<close>

definition bad_record :: index_record where
  "bad_record = \<lparr>rec_path = [0x61, 0xFF, 0x62], rec_size = [1, 0, 0, 0], rec_timestamp = []\<rparr>"

definition bad_entry :: PackFileEntry where
  "bad_entry =
     \<lparr>entry_path = [97, 98], entry_size = 1, entry_offset = 0, entry_timestamp = None\<rparr>"



text \<open>The total of the members' contributions to the running offset, from \<open>off\<close> on.\<close>

fun data_extent :: "pfh5_header \<Rightarrow> index_record list \<Rightarrow> nat \<Rightarrow> nat" where
  "data_extent h [] off = off"
| "data_extent h (rc # rcs) off = data_extent h rcs (next_offset h off (le_nat (rec_size rc)))"

section \<open>Lemmas on the decoding steps\<close>

lemma bind_err_Inl [simp]: "bind_err (Inl e) f = Inl e"
  by (simp add: bind_err_def)

lemma bind_err_Inr [simp]: "bind_err (Inr x) f = f x"
  by (simp add: bind_err_def)

lemma index_of_hit: "b \<notin> set p \<Longrightarrow> index_of b (p @ b # rest) = Some (length p)"
  by (induction p) auto

lemma index_of_None_iff: "index_of b xs = None \<longleftrightarrow> b \<notin> set xs"
  by (induction xs) auto

lemma index_of_Some:
  "index_of b xs = Some i \<Longrightarrow> i < length xs \<and> xs ! i = b \<and> b \<notin> set (take i xs)"
proof (induction xs arbitrary: i)
  case Nil
  then show ?case by simp
next
  case (Cons x xs)
  show ?case
  proof (cases "x = b")
    case True
    with Cons.prems show ?thesis by simp
  next
    case False
    with Cons.prems obtain j where j: "index_of b xs = Some j" "i = Suc j"
      by auto
    from Cons.IH [OF j(1)] False j(2) show ?thesis by simp
  qed
qed

lemma emit_Inr [simp]: "emit c (Inr s) = Inr (c # s)"
  by (simp add: emit_def)

lemma isl_emit [simp]: "isl (emit c r) = isl r"
  by (cases r) (simp_all add: emit_def)

lemma utf8_ignore_not_isl: "\<not> isl (utf8_decode Ignore b)"
  by (induction "Ignore" b rule: utf8_decode.induct) (simp_all split: list.splits)

lemma utf8_ignore_total: "utf8_decode Ignore b = Inr (path_text b)"
  using utf8_ignore_not_isl [of b] by (cases "utf8_decode Ignore b") (simp_all add: path_text_def)


lemma unpack_u32_4 [simp]: "length b = 4 \<Longrightarrow> unpack_u32 b = Inr (le_nat b)"
  by (simp add: unpack_u32_def)

lemma slice_from: "slice data i (i + n) = take n (drop i data)"
  by (simp add: slice_def)

lemma drop_shift: "drop pos data = a @ b \<Longrightarrow> drop (pos + length a) data = b"
  by (metis add.commute append_eq_conv_conj drop_drop)

lemma read_entry_complete:
  assumes wf: "well_formed h rc"
    and d: "drop pos data = encode_record rc @ rest"
  shows "read_entry h data pos cur =
           Inr (Some (entry_of h rc cur, pos + length (encode_record rc),
                      next_offset h cur (le_nat (rec_size rc))))"
proof -
  define p where "p = rec_path rc"
  define sz where "sz = rec_size rc"
  define ts where "ts = rec_timestamp rc"
  define e where "e = pos + length p"
  have dd: "drop pos data = p @ 0 # sz @ ts @ rest"
    using d by (simp add: encode_record_def p_def sz_def ts_def)
  have p0: "0 \<notin> set p" and lsz: "length sz = 4"
    and lts: "length ts = (if has_timestamps h then 4 else 0)"
    using wf by (simp_all add: well_formed_def p_def sz_def ts_def)
  have de: "drop e data = 0 # sz @ ts @ rest"
    unfolding e_def by (rule drop_shift [OF dd])
  have de1: "drop (e + 1) data = sz @ ts @ rest"
    using drop_shift [of e data "[0]" "sz @ ts @ rest"] de by simp
  have de5: "drop (e + 1 + 4) data = ts @ rest"
    using drop_shift [of "e + 1" data sz "ts @ rest"] de1 lsz by simp
  have len: "length data = e + 1 + 4 + length (ts @ rest)"
  proof -
    have "length (drop (e + 1 + 4) data) = length (ts @ rest)"
      by (simp only: de5)
    moreover have "e + 1 + 4 \<le> length data"
    proof (rule ccontr)
      assume "\<not> e + 1 + 4 \<le> length data"
      then have "drop (e + 1) data = [] \<or> length (drop (e + 1) data) < 4" by auto
      with de1 lsz show False by auto
    qed
    ultimately show ?thesis by simp
  qed
  have pos_lt: "\<not> length data \<le> pos"
    using dd by auto
  have fnd: "find_byte data 0 pos = Some e"
    by (simp add: find_byte_def dd index_of_hit [OF p0] e_def)
  have s1: "slice data pos e = p"
    using slice_from [of data pos "length p"] by (simp add: dd e_def)
  have s2: "slice data (e + 1) (e + 1 + 4) = sz"
    by (simp only: slice_from de1) (simp add: lsz)
  have le: "pos + length (encode_record rc) = e + 1 + 4 + length ts"
    by (simp add: encode_record_def p_def sz_def ts_def lsz [unfolded sz_def] e_def)
  have c1: "\<not> e + 1 + 4 > length data"
    using len by simp
  have step1: "read_entry h data pos cur =
      (let pos = e + 1 + 4 in
              if has_timestamps h then
                if pos + 4 > length data then Inr None
                else
                  bind_err (unpack_u32 (slice data pos (pos + 4))) (\<lambda>timestamp.
                  let pos = pos + 4 in
                  Inr (Some (\<lparr>entry_path = path_text p, entry_size = le_nat sz,
                              entry_offset = cur,
                              entry_timestamp = Some timestamp\<rparr>,
                            pos, next_offset h cur (le_nat sz))))
              else
                Inr (Some (\<lparr>entry_path = path_text p, entry_size = le_nat sz,
                            entry_offset = cur, entry_timestamp = None\<rparr>,
                          pos, next_offset h cur (le_nat sz))))"
    unfolding read_entry_def
    by (simp only: pos_lt if_False fnd option.case s1 utf8_ignore_total bind_err_Inr Let_def
        c1 s2 unpack_u32_4 [OF lsz])
  show ?thesis
  proof (cases "has_timestamps h")
    case True
    with lts have l4: "length ts = 4" by simp
    have s3: "slice data (e + 1 + 4) (e + 1 + 4 + 4) = ts"
      by (simp only: slice_from de5) (simp add: l4)
    have c2: "\<not> e + 1 + 4 + 4 > length data"
      using len l4 by simp
    show ?thesis
      unfolding step1 Let_def
      by (simp only: True if_True c2 if_False s3 unpack_u32_4 [OF l4] bind_err_Inr le l4
          entry_of_def p_def [symmetric] sz_def [symmetric] ts_def [symmetric])
  next
    case False
    with lts have l0: "length ts = 0" by simp
    show ?thesis
      unfolding step1 Let_def
      by (simp only: False if_False le l0 entry_of_def
          p_def [symmetric] sz_def [symmetric] ts_def [symmetric]) simp
  qed
qed


lemma dropWhile_hit: "b \<notin> set p \<Longrightarrow> dropWhile (\<lambda>x. x \<noteq> b) (p @ b # rest) = b # rest"
  by (induction p) auto

lemma index_of_split:
  assumes "index_of b xs = Some i"
  shows "\<exists>rest. xs = take i xs @ b # rest \<and> b \<notin> set (take i xs) \<and> length (take i xs) = i"
proof -
  from index_of_Some [OF assms] have i: "i < length xs" "xs ! i = b" "b \<notin> set (take i xs)"
    by simp_all
  have "xs = take i xs @ b # drop (Suc i) xs"
    using id_take_nth_drop [OF i(1)] i(2) by simp
  with i show ?thesis by (metis length_take less_imp_le_nat min.absorb2)
qed

lemma length_slice: "i + n \<le> length data \<Longrightarrow> length (slice data i (i + n)) = n"
  by (simp add: slice_def)

lemma read_entry_truncated:
  assumes tr: "truncated h (drop pos data)"
  shows "read_entry h data pos cur = Inr None"
proof (cases "length data \<le> pos")
  case True
  then show ?thesis by (simp add: read_entry_def)
next
  case pos_lt: False
  show ?thesis
  proof (cases "index_of 0 (drop pos data)")
    case None
    then show ?thesis using pos_lt by (simp add: read_entry_def find_byte_def)
  next
    case (Some i)
    define e where "e = pos + i"
    from index_of_split [OF Some] obtain rest where
      dd: "drop pos data = take i (drop pos data) @ 0 # rest"
      and p0: "0 \<notin> set (take i (drop pos data))"
      and li: "length (take i (drop pos data)) = i"
      by blast
    have dw: "dropWhile (\<lambda>x. x \<noteq> 0) (drop pos data) = 0 # rest"
      using dropWhile_hit [OF p0, of rest] dd by simp
    have lr: "length rest < (if has_timestamps h then 8 else 4)"
      using tr by (simp add: truncated_def dw split: if_splits)
    have len: "length data = e + 1 + length rest"
    proof -
      have "length (drop pos data) = i + 1 + length rest"
        using arg_cong [OF dd, of length] li by simp
      then show ?thesis using pos_lt by (simp add: e_def)
    qed
    have fnd: "find_byte data 0 pos = Some e"
      by (simp add: find_byte_def Some e_def)
    define fp where "fp = path_text (slice data pos e)"
    have step1: "read_entry h data pos cur =
            (if e + 1 + 4 > length data then Inr None
            else
              bind_err (unpack_u32 (slice data (e + 1) (e + 1 + 4))) (\<lambda>sz.
              if has_timestamps h then
                if e + 1 + 4 + 4 > length data then Inr None
                else
                  bind_err (unpack_u32 (slice data (e + 1 + 4) (e + 1 + 4 + 4))) (\<lambda>timestamp.
                  Inr (Some (\<lparr>entry_path = fp, entry_size = sz,
                              entry_offset = cur,
                              entry_timestamp = Some timestamp\<rparr>,
                            e + 1 + 4 + 4, next_offset h cur sz)))
              else
                Inr (Some (\<lparr>entry_path = fp, entry_size = sz,
                            entry_offset = cur, entry_timestamp = None\<rparr>,
                          e + 1 + 4, next_offset h cur sz))))"
      unfolding read_entry_def fp_def
      by (simp only: pos_lt if_False fnd option.case utf8_ignore_total bind_err_Inr Let_def)
    show ?thesis
    proof (cases "length rest < 4")
      case True
      then have "e + 1 + 4 > length data" using len by simp
      then show ?thesis unfolding step1 by (simp only: if_True)
    next
      case False
      then have c1: "\<not> e + 1 + 4 > length data" using len by simp
      have "e + 1 + 4 \<le> length data" using c1 by simp
      then have l4: "length (slice data (e + 1) (e + 1 + 4)) = 4"
        by (rule length_slice)
      from False lr have ts: "has_timestamps h" and c2: "e + 1 + 4 + 4 > length data"
        using len by (simp_all split: if_splits)
      show ?thesis unfolding step1
        by (simp only: c1 if_False unpack_u32_4 [OF l4] bind_err_Inr ts c2 if_True)
    qed
  qed
qed

lemma not_truncated_record:
  assumes "\<not> truncated h d"
  shows "\<exists>rc rest. well_formed h rc \<and> d = encode_record rc @ rest"
proof -
  define w where "w = dropWhile (\<lambda>x. x \<noteq> 0) d"
  define n where "n = (if has_timestamps h then 4 else 0::nat)"
  have lw: "5 + n \<le> length w"
    using assms by (simp add: truncated_def w_def n_def split: if_splits)
  then have "w \<noteq> []" by auto
  then have "hd w = 0"
    unfolding w_def using hd_dropWhile [of "\<lambda>x. x \<noteq> 0" d] by simp
  with \<open>w \<noteq> []\<close> obtain q where q: "w = 0 # q" by (cases w) auto
  with lw have lq: "4 + n \<le> length q" by simp
  define rc where "rc = \<lparr>rec_path = takeWhile (\<lambda>x. x \<noteq> 0) d, rec_size = take 4 q,
                         rec_timestamp = take n (drop 4 q)\<rparr>"
  have "well_formed h rc"
    using lq by (auto simp: well_formed_def rc_def n_def dest: set_takeWhileD)
  moreover have "d = encode_record rc @ drop (4 + n) q"
  proof -
    have "d = takeWhile (\<lambda>x. x \<noteq> 0) d @ w"
      by (simp add: w_def)
    also have "w = 0 # take 4 q @ take n (drop 4 q) @ drop n (drop 4 q)"
      unfolding q by (simp only: append_take_drop_id)
    finally show ?thesis
      by (simp add: encode_record_def rc_def add.commute)
  qed
  ultimately show ?thesis by blast
qed

lemma record_not_truncated:
  assumes "well_formed h rc"
  shows "\<not> truncated h (encode_record rc @ rest)"
proof -
  have "dropWhile (\<lambda>x. x \<noteq> 0) (encode_record rc @ rest)
          = 0 # rec_size rc @ rec_timestamp rc @ rest"
    using assms dropWhile_hit [of 0 "rec_path rc" "rec_size rc @ rec_timestamp rc @ rest"]
    by (simp add: well_formed_def encode_record_def)
  then show ?thesis
    using assms by (simp add: truncated_def well_formed_def)
qed

lemma parse_entries_records:
  assumes "\<forall>rc \<in> set rcs. well_formed h rc"
    and "drop pos data = concat (map encode_record rcs) @ tail"
    and "length rcs = n \<or> (length rcs < n \<and> truncated h tail)"
  shows "parse_entries h data n pos cur acc = Inr (acc @ entries_of h rcs cur)"
  using assms
proof (induction rcs arbitrary: n pos cur acc)
  case Nil
  show ?case
  proof (cases n)
    case 0
    then show ?thesis by simp
  next
    case (Suc m)
    with Nil.prems have "truncated h (drop pos data)" by simp
    then have "read_entry h data pos cur = Inr None" by (rule read_entry_truncated)
    with Suc show ?thesis by simp
  qed
next
  case (Cons rc rcs)
  from Cons.prems(3) obtain m where n: "n = Suc m" by (cases n) auto
  have wf: "well_formed h rc" using Cons.prems(1) by simp
  have d: "drop pos data = encode_record rc @ (concat (map encode_record rcs) @ tail)"
    using Cons.prems(2) by simp
  have step: "read_entry h data pos cur =
      Inr (Some (entry_of h rc cur, pos + length (encode_record rc),
                 next_offset h cur (le_nat (rec_size rc))))"
    by (rule read_entry_complete [OF wf d])
  have d': "drop (pos + length (encode_record rc)) data = concat (map encode_record rcs) @ tail"
    by (rule drop_shift [OF d])
  have "parse_entries h data m (pos + length (encode_record rc))
          (next_offset h cur (le_nat (rec_size rc))) (acc @ [entry_of h rc cur])
        = Inr ((acc @ [entry_of h rc cur])
               @ entries_of h rcs (next_offset h cur (le_nat (rec_size rc))))"
  proof (rule Cons.IH [OF _ d'])
    show "\<forall>rc \<in> set rcs. well_formed h rc" using Cons.prems(1) by simp
    show "length rcs = m \<or> length rcs < m \<and> truncated h tail"
      using Cons.prems(3) n by auto
  qed
  then show ?case by (simp add: n step)
qed

lemma index_records_exist:
  "\<exists>rcs tail. (\<forall>rc \<in> set rcs. well_formed h rc)
      \<and> drop pos data = concat (map encode_record rcs) @ tail
      \<and> (length rcs = n \<or> (length rcs < n \<and> truncated h tail))"
proof (induction n arbitrary: pos)
  case 0
  have "(\<forall>rc \<in> set []. well_formed h rc)
      \<and> drop pos data = concat (map encode_record []) @ drop pos data
      \<and> (length ([] :: index_record list) = 0 \<or> (length ([] :: index_record list) < 0 \<and> truncated h (drop pos data)))"
    by simp
  then show ?case by blast
next
  case (Suc n)
  show ?case
  proof (cases "truncated h (drop pos data)")
    case True
    then have "(\<forall>rc \<in> set []. well_formed h rc)
      \<and> drop pos data = concat (map encode_record []) @ drop pos data
      \<and> (length ([] :: index_record list) = Suc n
           \<or> (length ([] :: index_record list) < Suc n \<and> truncated h (drop pos data)))"
      by simp
    then show ?thesis by blast
  next
    case False
    from not_truncated_record [OF False] obtain rc rest where
      wf: "well_formed h rc" and d: "drop pos data = encode_record rc @ rest"
      by blast
    have d': "drop (pos + length (encode_record rc)) data = rest"
      by (rule drop_shift [OF d])
    from Suc [of "pos + length (encode_record rc)"] obtain rcs tail where
      r: "\<forall>rc \<in> set rcs. well_formed h rc"
        "rest = concat (map encode_record rcs) @ tail"
        "length rcs = n \<or> (length rcs < n \<and> truncated h tail)"
      unfolding d' by blast
    have "(\<forall>x \<in> set (rc # rcs). well_formed h x)
      \<and> drop pos data = concat (map encode_record (rc # rcs)) @ tail
      \<and> (length (rc # rcs) = Suc n \<or> (length (rc # rcs) < Suc n \<and> truncated h tail))"
      using wf d r by auto
    then show ?thesis by blast
  qed
qed

lemma length_entries_of [simp]: "length (entries_of h rcs off) = length rcs"
  by (induction rcs arbitrary: off) auto

lemma entries_of_paths:
  "map entry_path (entries_of h rcs off) = map (\<lambda>rc. path_text (rec_path rc)) rcs"
  by (induction rcs arbitrary: off) (auto simp: entry_of_def)

lemma entries_of_sizes:
  "map entry_size (entries_of h rcs off) = map (\<lambda>rc. le_nat (rec_size rc)) rcs"
  by (induction rcs arbitrary: off) (auto simp: entry_of_def)

lemma entries_of_first: "rcs \<noteq> [] \<Longrightarrow> entry_offset (hd (entries_of h rcs off)) = off"
  by (cases rcs) (auto simp: entry_of_def)

lemma entries_of_next:
  "Suc i < length rcs \<Longrightarrow>
     entry_offset (entries_of h rcs off ! Suc i)
       = next_offset h (entry_offset (entries_of h rcs off ! i))
           (entry_size (entries_of h rcs off ! i))"
proof (induction rcs arbitrary: off i)
  case Nil
  then show ?case by simp
next
  case (Cons rc rcs)
  show ?case
  proof (cases i)
    case 0
    with Cons.prems obtain rc' rcs' where "rcs = rc' # rcs'" by (cases rcs) auto
    with 0 show ?thesis by (simp add: entry_of_def)
  next
    case (Suc j)
    with Cons.prems have "Suc j < length rcs" by simp
    from Cons.IH [OF this] Suc show ?thesis by simp
  qed
qed

lemma round_up8_code: "((n + 7) div 8) * 8 = round_up8 n"
proof -
  define q where "q = n div 8"
  define m where "m = n mod 8"
  have n: "n = 8 * q + m" and m: "m < 8" by (simp_all add: q_def m_def)
  show ?thesis
  proof (cases "m = 0")
    case True
    then show ?thesis unfolding round_up8_def n by simp
  next
    case False
    with m have "(8 * q + m + 7) div 8 = q + 1" by simp
    with False m show ?thesis unfolding round_up8_def n by simp
  qed
qed

lemma next_offset_round:
  "next_offset h off n = off + (if data_padded h then round_up8 n else n)"
  by (simp add: next_offset_def round_up8_code)

lemma round_up8_least: "8 dvd round_up8 n \<and> n \<le> round_up8 n \<and> round_up8 n < n + 8"
proof -
  have "8 dvd ((n + 7) div 8) * 8" by simp
  moreover have "n \<le> ((n + 7) div 8) * 8 \<and> ((n + 7) div 8) * 8 < n + 8" by arith
  ultimately show ?thesis by (simp only: round_up8_code)
qed

lemma decode_magic: "decode_ascii [0x50, 0x46, 0x48, 0x35] = Inr ''PFH5''"
  by (simp add: decode_ascii_def char_of_def bit_0)

lemma ex_read_header:
  "read_header (PFH5Reader ex_file) =
     Inr (ex_header, (PFH5Reader ex_file)\<lparr>header := Some ex_header\<rparr>)"
  by (simp add: read_header_def PFH5Reader_def PFH5_def seek_read_def slice_def unpack_u32_def
      ex_file_def ex_head_def ex_header_def
      FLAG_EXTENDED_HEADER_def FLAG_INDEX_ENCRYPTED_def FLAG_TIMESTAMP_IN_INDEX_def
      FLAG_DATA_PADDED_def Let_def decode_magic)

lemma ex_index_records: "ex_index = concat (map encode_record ex_records) @ []"
  by (simp add: ex_index_def ex_records_def encode_record_def)

lemma ex_records_wf: "\<forall>rc \<in> set ex_records. well_formed ex_header rc"
  by (simp add: ex_records_def well_formed_def ex_header_def)

lemma ex_entries_of: "entries_of ex_header ex_records 0 = ex_entries"
  by (simp add: ex_records_def ex_entries_def entry_of_def path_text_def next_offset_def
      ex_header_def)

lemma read_file_index_known:
  "header_known r h r1 \<Longrightarrow> read_file_index r = read_index_with h r1"
  by (cases "header r") (simp_all add: header_known_def read_file_index_def)


lemma ex_ready_known: "header_known ex_ready ex_header ex_ready"
  by (simp add: header_known_def ex_ready_def)

lemma ex_not_encrypted: "\<not> index_encrypted ex_header"
  by (simp add: ex_header_def)

lemma ex_seek_index:
  "seek_read ex_file (header_size ex_header + pf_index_size ex_header) (file_index_size ex_header)
     = ex_index"
  by (simp add: seek_read_def header_size_def ex_header_def ex_file_def ex_head_def ex_index_def)



lemma ex_ready_eq:
  "(PFH5Reader ex_file)\<lparr>header := Some ex_header, entries := ex_entries,
      file_data_offset := 52\<rparr> = ex_ready"
  by (simp add: PFH5Reader_def ex_ready_def)

section \<open>Where the index and the data region start\<close>



lemmas header_eval =
  read_header_def PFH5Reader_def PFH5_def seek_read_def slice_def unpack_u32_def
  FLAG_EXTENDED_HEADER_def FLAG_INDEX_ENCRYPTED_def FLAG_TIMESTAMP_IN_INDEX_def
  FLAG_DATA_PADDED_def Let_def decode_magic ex_header_def

lemma tr_read_header:
  "read_header (PFH5Reader tr_file) =
     Inr (tr_header, (PFH5Reader tr_file)\<lparr>header := Some tr_header\<rparr>)"
  by (simp add: header_eval tr_file_def tr_head_def tr_header_def)

lemma pad_read_header:
  "read_header (PFH5Reader pad_file) =
     Inr (pad_header, (PFH5Reader pad_file)\<lparr>header := Some pad_header\<rparr>)"
  by (simp add: header_eval pad_file_def pad_head_def pad_header_def)

lemma big_read_header:
  "read_header (PFH5Reader big_file) =
     Inr (big_header, (PFH5Reader big_file)\<lparr>header := Some big_header\<rparr>)"
  by (simp add: header_eval big_file_def big_head_def big_header_def)

lemma enc_read_header:
  "read_header (PFH5Reader enc_file) =
     Inr (enc_header, (PFH5Reader enc_file)\<lparr>header := Some enc_header\<rparr>)"
  by (simp add: header_eval enc_file_def enc_head_def enc_header_def)

lemma fresh_known:
  "read_header (PFH5Reader file) = Inr (h, r1) \<Longrightarrow> header_known (PFH5Reader file) h r1"
proof -
  assume a: "read_header (PFH5Reader file) = Inr (h, r1)"
  have "header (PFH5Reader file) = None" by (simp add: PFH5Reader_def)
  with a show ?thesis by (simp add: header_known_def)
qed


lemma read_index_with_records:
  assumes "\<not> index_encrypted h"
    and "seek_read (pack_file r1) (header_size h + pf_index_size h) (file_index_size h)
           = concat (map encode_record rcs) @ tail"
    and "\<forall>rc \<in> set rcs. well_formed h rc"
    and "length rcs = file_index_count h \<or> (length rcs < file_index_count h \<and> truncated h tail)"
  shows "read_index_with h r1 =
           Inr (entries_of h rcs 0,
                r1\<lparr>entries := entries_of h rcs 0,
                   file_data_offset := header_size h + pf_index_size h + file_index_size h\<rparr>)"
proof -
  define data where
    "data = seek_read (pack_file r1) (header_size h + pf_index_size h) (file_index_size h)"
  have "drop 0 data = concat (map encode_record rcs) @ tail"
    using assms(2) by (simp add: data_def)
  from parse_entries_records [OF assms(3) this assms(4), of 0 "[]"]
  have "parse_entries h data (file_index_count h) 0 0 [] = Inr (entries_of h rcs 0)"
    by simp
  then show ?thesis
    using assms(1) by (simp add: read_index_with_def data_def [symmetric])
qed

lemma read_index_with_total:
  assumes "\<not> index_encrypted h"
  shows "\<exists>rcs tail.
           read_index_with h r1 =
             Inr (entries_of h rcs 0,
                  r1\<lparr>entries := entries_of h rcs 0,
                     file_data_offset := header_size h + pf_index_size h + file_index_size h\<rparr>)
         \<and> (\<forall>rc \<in> set rcs. well_formed h rc)
         \<and> seek_read (pack_file r1) (header_size h + pf_index_size h) (file_index_size h)
             = concat (map encode_record rcs) @ tail
         \<and> (length rcs = file_index_count h
              \<or> (length rcs < file_index_count h \<and> truncated h tail))"
proof -
  define data where
    "data = seek_read (pack_file r1) (header_size h + pf_index_size h) (file_index_size h)"
  from index_records_exist [of h 0 data "file_index_count h"] obtain rcs tail where
    r: "\<forall>rc \<in> set rcs. well_formed h rc"
       "data = concat (map encode_record rcs) @ tail"
       "length rcs = file_index_count h \<or> (length rcs < file_index_count h \<and> truncated h tail)"
    by auto
  from read_index_with_records [OF assms r(2) [unfolded data_def] r(1) r(3)] r
  show ?thesis unfolding data_def by blast
qed

section \<open>Index decoding never raises\<close>

text \<open>
  Claim C10. For a header without the index-encrypted flag and any index bytes,
  \<^verbatim>\<open>read_file_index\<close> returns a list, never an exception. The list has at most
  \<open>file_index_count\<close> entries, and it is the list of descriptors of complete records
  (a path with its zero terminator, 4 bytes of size and, with the timestamps flag,
  4 bytes of timestamp) that lie back to back at the start of the index bytes.
\<close>

theorem read_file_index_returns:
  assumes "header_known r h r1" and "\<not> index_encrypted h"
  shows "\<exists>rcs tail.
           read_file_index r =
             Inr (entries_of h rcs 0,
                  r1\<lparr>entries := entries_of h rcs 0,
                     file_data_offset := header_size h + pf_index_size h + file_index_size h\<rparr>)
         \<and> length (entries_of h rcs 0) \<le> file_index_count h
         \<and> (\<forall>rc \<in> set rcs. well_formed h rc)
         \<and> seek_read (pack_file r1) (header_size h + pf_index_size h) (file_index_size h)
             = concat (map encode_record rcs) @ tail"
proof -
  from read_index_with_total [OF assms(2), of r1] obtain rcs tail where
    r: "read_index_with h r1 =
             Inr (entries_of h rcs 0,
                  r1\<lparr>entries := entries_of h rcs 0,
                     file_data_offset := header_size h + pf_index_size h + file_index_size h\<rparr>)"
       "\<forall>rc \<in> set rcs. well_formed h rc"
       "seek_read (pack_file r1) (header_size h + pf_index_size h) (file_index_size h)
             = concat (map encode_record rcs) @ tail"
       "length rcs = file_index_count h
              \<or> (length rcs < file_index_count h \<and> truncated h tail)"
    by blast
  from r(4) have "length (entries_of h rcs 0) \<le> file_index_count h" by auto
  with r(1-3) show ?thesis
    unfolding read_file_index_known [OF assms(1)] by blast
qed

lemma tr_not_encrypted: "\<not> index_encrypted tr_header"
  by (simp add: tr_header_def ex_header_def)

theorem read_file_index_returns_witness:
  "header_known (PFH5Reader tr_file) tr_header ((PFH5Reader tr_file)\<lparr>header := Some tr_header\<rparr>)
   \<and> \<not> index_encrypted tr_header
   \<and> \<not> isl (read_file_index (PFH5Reader tr_file))
   \<and> length (fst (projr (read_file_index (PFH5Reader tr_file)))) \<le> 2"
proof -
  have k: "header_known (PFH5Reader tr_file) tr_header
             ((PFH5Reader tr_file)\<lparr>header := Some tr_header\<rparr>)"
    by (rule fresh_known [OF tr_read_header])
  have c: "file_index_count tr_header = 2" by (simp add: tr_header_def ex_header_def)
  from read_file_index_returns [OF k tr_not_encrypted] obtain rcs r' where
    "read_file_index (PFH5Reader tr_file) = Inr (entries_of tr_header rcs 0, r')"
    "length (entries_of tr_header rcs 0) \<le> file_index_count tr_header"
    by blast
  then have "\<not> isl (read_file_index (PFH5Reader tr_file))
     \<and> length (fst (projr (read_file_index (PFH5Reader tr_file)))) \<le> 2"
    unfolding c by simp
  with k tr_not_encrypted show ?thesis by blast
qed


lemma read_header_state:
  assumes "read_header r = Inr (h, r1)"
  shows "r1 = r\<lparr>header := Some h\<rparr>"
  using assms unfolding read_header_def Let_def bind_err_def
  by (auto split: if_splits sum.splits)

lemma header_known_state:
  assumes "header_known r h r1"
  shows "pack_file r1 = pack_file r \<and> entries r1 = entries r \<and> stdout r1 = stdout r
         \<and> header r1 = Some h"
proof (cases "header r")
  case None
  with assms have "read_header r = Inr (h, r1)" by (simp add: header_known_def)
  from read_header_state [OF this] show ?thesis by simp
next
  case (Some h')
  with assms show ?thesis by (simp add: header_known_def)
qed

section \<open>A truncated index\<close>

text \<open>
  Claim C1 says that an index which ends before \<open>file_index_count\<close> complete records
  makes index decoding fail. The reader leaves its loop with \<^verbatim>\<open>break\<close> instead and
  returns the entries read so far: on the example whose index lacks the size field of
  the second member, it returns the entry of the first member.
\<close>

lemma tr_index_records:
  "seek_read (pack_file ((PFH5Reader tr_file)\<lparr>header := Some tr_header\<rparr>))
     (header_size tr_header + pf_index_size tr_header) (file_index_size tr_header)
   = concat (map encode_record [hd ex_records]) @ [0x62, 0x2E, 0x74, 0x78, 0x74, 0]"
  by (simp add: seek_read_def header_size_def tr_header_def ex_header_def tr_file_def
      tr_head_def tr_index_def PFH5Reader_def ex_records_def encode_record_def)

lemma tr_wf: "\<forall>rc \<in> set [hd ex_records]. well_formed tr_header rc"
  by (simp add: ex_records_def well_formed_def tr_header_def ex_header_def)

lemma tr_truncated:
  "length [hd ex_records] < file_index_count tr_header
   \<and> truncated tr_header [0x62, 0x2E, 0x74, 0x78, 0x74, 0]"
  by (simp add: truncated_def tr_header_def ex_header_def)

lemma tr_entries_of: "entries_of tr_header [hd ex_records] 0 = tr_entries"
  by (simp add: ex_records_def tr_entries_def entry_of_def path_text_def tr_header_def
      ex_header_def)

lemma tr_offset:
  "header_size tr_header + pf_index_size tr_header + file_index_size tr_header = 48"
  by (simp add: header_size_def tr_header_def ex_header_def)

theorem truncated_index_counterexample:
  "read_file_index (PFH5Reader tr_file) =
     Inr (tr_entries,
          (PFH5Reader tr_file)\<lparr>header := Some tr_header, entries := tr_entries,
             file_data_offset := 48\<rparr>)
   \<and> file_index_count tr_header = 2 \<and> length tr_entries = 1"
proof -
  have "read_index_with tr_header ((PFH5Reader tr_file)\<lparr>header := Some tr_header\<rparr>) =
     Inr (tr_entries,
          (PFH5Reader tr_file)\<lparr>header := Some tr_header, entries := tr_entries,
             file_data_offset := 48\<rparr>)"
    using read_index_with_records
            [OF tr_not_encrypted tr_index_records tr_wf, unfolded tr_entries_of tr_offset]
          tr_truncated
    by blast
  then show ?thesis
    unfolding read_file_index_known [OF fresh_known [OF tr_read_header]]
    by (simp add: tr_header_def ex_header_def tr_entries_def)
qed

text \<open>
  Claim C1 as the reader implements it: when the index bytes consist of fewer than
  \<open>file_index_count\<close> complete records followed by bytes that hold no complete record
  (the terminator of the path is missing, or fewer than 4 bytes are left for the size
  or the timestamp), \<^verbatim>\<open>read_file_index\<close> returns normally, with exactly the entries of
  the complete records.
\<close>

theorem truncated_index_partial:
  assumes "header_known r h r1" and "\<not> index_encrypted h"
    and "seek_read (pack_file r1) (header_size h + pf_index_size h) (file_index_size h)
           = concat (map encode_record rcs) @ tail"
    and "\<forall>rc \<in> set rcs. well_formed h rc"
    and "length rcs < file_index_count h" and "truncated h tail"
  shows "read_file_index r =
           Inr (entries_of h rcs 0,
                r1\<lparr>entries := entries_of h rcs 0,
                   file_data_offset := header_size h + pf_index_size h + file_index_size h\<rparr>)
         \<and> length (entries_of h rcs 0) = length rcs"
proof -
  have "length rcs = file_index_count h \<or> (length rcs < file_index_count h \<and> truncated h tail)"
    using assms(5,6) by simp
  from read_index_with_records [OF assms(2,3,4) this]
  show ?thesis unfolding read_file_index_known [OF assms(1)] by simp
qed

theorem truncated_index_partial_witness:
  "header_known (PFH5Reader tr_file) tr_header ((PFH5Reader tr_file)\<lparr>header := Some tr_header\<rparr>)
   \<and> \<not> index_encrypted tr_header
   \<and> well_formed tr_header (hd ex_records)
   \<and> length [hd ex_records] < file_index_count tr_header
   \<and> truncated tr_header [0x62, 0x2E, 0x74, 0x78, 0x74, 0]
   \<and> map_sum id fst (read_file_index (PFH5Reader tr_file)) = Inr tr_entries"
proof -
  have k: "header_known (PFH5Reader tr_file) tr_header
             ((PFH5Reader tr_file)\<lparr>header := Some tr_header\<rparr>)"
    by (rule fresh_known [OF tr_read_header])
  from tr_truncated have t1: "length [hd ex_records] < file_index_count tr_header"
    and t2: "truncated tr_header [0x62, 0x2E, 0x74, 0x78, 0x74, 0]" by simp_all
  from truncated_index_partial
         [OF k tr_not_encrypted tr_index_records tr_wf t1 t2, unfolded tr_entries_of]
  have "map_sum id fst (read_file_index (PFH5Reader tr_file)) = Inr tr_entries"
    by simp
  with k tr_not_encrypted tr_wf t1 t2 show ?thesis by simp
qed

lemma next_offset_ge: "off \<le> next_offset h off n"
  by (simp add: next_offset_def)

lemma entries_of_offsets_ge:
  "e \<in> set (entries_of h rcs off) \<Longrightarrow> off \<le> entry_offset e"
proof (induction rcs arbitrary: off)
  case Nil
  then show ?case by simp
next
  case (Cons rc rcs)
  from Cons.prems have "e = entry_of h rc off
      \<or> e \<in> set (entries_of h rcs (next_offset h off (le_nat (rec_size rc))))"
    by simp
  then show ?case
  proof
    assume "e = entry_of h rc off"
    then show ?thesis by (simp add: entry_of_def)
  next
    assume "e \<in> set (entries_of h rcs (next_offset h off (le_nat (rec_size rc))))"
    from Cons.IH [OF this] next_offset_ge [of off h "le_nat (rec_size rc)"]
    show ?thesis by simp
  qed
qed

lemma entries_of_sorted: "sorted (map entry_offset (entries_of h rcs off))"
proof (induction rcs arbitrary: off)
  case Nil
  then show ?case by simp
next
  case (Cons rc rcs)
  have "\<forall>e \<in> set (entries_of h rcs (next_offset h off (le_nat (rec_size rc)))).
          off \<le> entry_offset e"
    using entries_of_offsets_ge [of _ h rcs "next_offset h off (le_nat (rec_size rc))"]
      next_offset_ge [of off h "le_nat (rec_size rc)"]
    by (meson le_trans)
  with Cons.IH show ?case by (simp add: entry_of_def)
qed

lemma entries_of_last:
  "rcs \<noteq> [] \<Longrightarrow>
     next_offset h (entry_offset (last (entries_of h rcs off)))
       (entry_size (last (entries_of h rcs off))) = data_extent h rcs off"
proof (induction rcs arbitrary: off)
  case Nil
  then show ?case by simp
next
  case (Cons rc rcs)
  show ?case
  proof (cases rcs)
    case Nil
    then show ?thesis by (simp add: entry_of_def)
  next
    case (Cons rc' rcs')
    then have ne: "rcs \<noteq> []" by simp
    from Cons.IH [OF ne] ne show ?thesis
      using Cons by simp
  qed
qed


lemma read_index_with_encrypted:
  "index_encrypted h \<Longrightarrow>
     read_index_with h r1 = Inr ([], r1\<lparr>stdout := stdout r1 @ [EncryptedIndexWarning]\<rparr>)"
  by (simp add: read_index_with_def)

lemma read_index_with_entries:
  assumes "read_index_with h r1 = Inr (es, r')"
  shows "es = [] \<or> (\<exists>rcs. es = entries_of h rcs 0)"
proof (cases "index_encrypted h")
  case True
  with assms show ?thesis by (simp add: read_index_with_encrypted)
next
  case False
  from read_index_with_total [OF False, of r1] assms show ?thesis by auto
qed

section \<open>The offsets of the members\<close>

text \<open>
  Claim C2. In the list that \<^verbatim>\<open>read_file_index\<close> returns, the first entry has offset
  0, and the offset of each further entry is the offset of its predecessor plus the
  predecessor's size, where with the data-padded flag the size is first rounded up
  to the next multiple of 8 (a multiple of 8 stays as it is).
\<close>

theorem offsets_cumulative:
  assumes "header_known r h r1" and "read_file_index r = Inr (es, r')"
  shows "(es \<noteq> [] \<longrightarrow> entry_offset (hd es) = 0)
       \<and> (\<forall>i. Suc i < length es \<longrightarrow>
             entry_offset (es ! Suc i) =
               entry_offset (es ! i)
                 + (if data_padded h then round_up8 (entry_size (es ! i))
                    else entry_size (es ! i)))
       \<and> (\<forall>n. 8 dvd round_up8 n \<and> n \<le> round_up8 n \<and> round_up8 n < n + 8
              \<and> (8 dvd n \<longrightarrow> round_up8 n = n))"
proof -
  have ri: "read_index_with h r1 = Inr (es, r')"
    using assms(2) unfolding read_file_index_known [OF assms(1)] .
  have a: "(es \<noteq> [] \<longrightarrow> entry_offset (hd es) = 0)
       \<and> (\<forall>i. Suc i < length es \<longrightarrow>
             entry_offset (es ! Suc i) =
               entry_offset (es ! i)
                 + (if data_padded h then round_up8 (entry_size (es ! i))
                    else entry_size (es ! i)))"
  proof (cases "es = []")
    case True
    then show ?thesis by simp
  next
    case False
    with read_index_with_entries [OF ri] obtain rcs where es: "es = entries_of h rcs 0"
      by blast
    with False have ne: "rcs \<noteq> []" by auto
    have "entry_offset (hd es) = 0"
      unfolding es by (rule entries_of_first [OF ne])
    moreover have "\<forall>i. Suc i < length es \<longrightarrow>
             entry_offset (es ! Suc i) =
               entry_offset (es ! i)
                 + (if data_padded h then round_up8 (entry_size (es ! i))
                    else entry_size (es ! i))"
      unfolding es using entries_of_next [of _ rcs h 0]
      by (simp add: next_offset_round)
    ultimately show ?thesis by simp
  qed
  have b: "\<forall>n. 8 dvd round_up8 n \<and> n \<le> round_up8 n \<and> round_up8 n < n + 8
              \<and> (8 dvd n \<longrightarrow> round_up8 n = n)"
    using round_up8_least by (auto simp: round_up8_def)
  from a b show ?thesis by blast
qed

lemma pad_not_encrypted: "\<not> index_encrypted pad_header"
  by (simp add: pad_header_def ex_header_def)

lemma pad_index_records:
  "seek_read (pack_file ((PFH5Reader pad_file)\<lparr>header := Some pad_header\<rparr>))
     (header_size pad_header + pf_index_size pad_header) (file_index_size pad_header)
   = concat (map encode_record ex_records) @ []"
  by (simp add: seek_read_def header_size_def pad_header_def ex_header_def pad_file_def
      pad_head_def ex_index_def PFH5Reader_def ex_records_def encode_record_def)

lemma pad_wf: "\<forall>rc \<in> set ex_records. well_formed pad_header rc"
  by (simp add: ex_records_def well_formed_def pad_header_def ex_header_def)

lemma pad_count: "length ex_records = file_index_count pad_header"
  by (simp add: ex_records_def pad_header_def ex_header_def)

lemma pad_entries_of: "entries_of pad_header ex_records 0 = pad_entries"
  by (simp add: ex_records_def pad_entries_def entry_of_def path_text_def next_offset_def
      pad_header_def ex_header_def)

lemma pad_read_index:
  "read_file_index (PFH5Reader pad_file) =
     Inr (pad_entries,
          (PFH5Reader pad_file)\<lparr>header := Some pad_header, entries := pad_entries,
             file_data_offset :=
               header_size pad_header + pf_index_size pad_header
                 + file_index_size pad_header\<rparr>)"
  unfolding read_file_index_known [OF fresh_known [OF pad_read_header]]
  using read_index_with_records
          [OF pad_not_encrypted pad_index_records pad_wf, unfolded pad_entries_of]
        pad_count
  by blast

theorem offsets_cumulative_witness:
  "header_known (PFH5Reader pad_file) pad_header ((PFH5Reader pad_file)\<lparr>header := Some pad_header\<rparr>)
   \<and> map_sum id fst (read_file_index (PFH5Reader pad_file)) = Inr pad_entries
   \<and> data_padded pad_header
   \<and> pad_entries \<noteq> [] \<and> entry_offset (hd pad_entries) = 0
   \<and> Suc 0 < length pad_entries
   \<and> entry_size (pad_entries ! 0) = 3
   \<and> entry_offset (pad_entries ! Suc 0) = 8"
proof -
  have k: "header_known (PFH5Reader pad_file) pad_header
             ((PFH5Reader pad_file)\<lparr>header := Some pad_header\<rparr>)"
    by (rule fresh_known [OF pad_read_header])
  have n: "pad_entries \<noteq> []" and l: "Suc 0 < length pad_entries"
    and p: "data_padded pad_header" and s: "entry_size (pad_entries ! 0) = 3"
    and o: "entry_offset (pad_entries ! 0) = 0"
    by (simp_all add: pad_entries_def pad_header_def)
  from offsets_cumulative [OF k pad_read_index]
  have a: "pad_entries \<noteq> [] \<longrightarrow> entry_offset (hd pad_entries) = 0"
    and b: "Suc 0 < length pad_entries \<longrightarrow>
             entry_offset (pad_entries ! Suc 0) =
               entry_offset (pad_entries ! 0)
                 + (if data_padded pad_header then round_up8 (entry_size (pad_entries ! 0))
                    else entry_size (pad_entries ! 0))"
    by blast+
  from a n have "entry_offset (hd pad_entries) = 0" by simp
  moreover from b l p s o have "entry_offset (pad_entries ! Suc 0) = 8"
    by (simp add: round_up8_def)
  moreover have "map_sum id fst (read_file_index (PFH5Reader pad_file)) = Inr pad_entries"
    by (simp add: pad_read_index)
  ultimately show ?thesis using k n l p s by simp
qed

section \<open>An encrypted index\<close>

text \<open>
  Claim C5. With the index-encrypted flag set, \<^verbatim>\<open>read_file_index\<close> decodes nothing:
  it prints its warning, which is how it signals the unsupported feature, and
  returns the empty list without raising. The reader keeps its (empty) entry list
  and stays usable.
\<close>

theorem encrypted_index_empty:
  assumes "header_known r h r1" and "index_encrypted h"
  shows "read_file_index r = Inr ([], r1\<lparr>stdout := stdout r1 @ [EncryptedIndexWarning]\<rparr>)
         \<and> entries r1 = entries r \<and> stdout r1 = stdout r \<and> header r1 = Some h"
  unfolding read_file_index_known [OF assms(1)]
  using read_index_with_encrypted [OF assms(2)] header_known_state [OF assms(1)]
  by simp

lemma enc_encrypted: "index_encrypted enc_header"
  by (simp add: enc_header_def)

theorem encrypted_index_empty_witness:
  "header_known (PFH5Reader enc_file) enc_header ((PFH5Reader enc_file)\<lparr>header := Some enc_header\<rparr>)
   \<and> index_encrypted enc_header
   \<and> read_file_index (PFH5Reader enc_file) =
       Inr ([], \<lparr>pack_file = enc_file, header = Some enc_header, entries = [],
                 file_data_offset = 0, stdout = [EncryptedIndexWarning]\<rparr>)"
proof -
  have k: "header_known (PFH5Reader enc_file) enc_header
             ((PFH5Reader enc_file)\<lparr>header := Some enc_header\<rparr>)"
    by (rule fresh_known [OF enc_read_header])
  from encrypted_index_empty [OF k enc_encrypted]
  have "read_file_index (PFH5Reader enc_file) =
       Inr ([], \<lparr>pack_file = enc_file, header = Some enc_header, entries = [],
                 file_data_offset = 0, stdout = [EncryptedIndexWarning]\<rparr>)"
    by (simp add: PFH5Reader_def)
  with k enc_encrypted show ?thesis by simp
qed


section \<open>A valid archive\<close>

lemma big_not_encrypted: "\<not> index_encrypted big_header"
  by (simp add: big_header_def ex_header_def)

lemma big_index_records:
  "seek_read (pack_file ((PFH5Reader big_file)\<lparr>header := Some big_header\<rparr>))
     (header_size big_header + pf_index_size big_header) (file_index_size big_header)
   = concat (map encode_record [big_record]) @ []"
  by (simp add: seek_read_def header_size_def big_header_def ex_header_def big_file_def
      big_head_def big_index_def PFH5Reader_def big_record_def encode_record_def)

lemma big_wf: "\<forall>rc \<in> set [big_record]. well_formed big_header rc"
  by (simp add: big_record_def well_formed_def big_header_def ex_header_def)

lemma big_count: "length [big_record] = file_index_count big_header"
  by (simp add: big_header_def ex_header_def)

lemma big_entries_of: "entries_of big_header [big_record] 0 = [big_entry]"
  by (simp add: big_record_def big_entry_def entry_of_def path_text_def big_header_def
      ex_header_def)

lemma big_offset:
  "header_size big_header + pf_index_size big_header + file_index_size big_header = 42"
  by (simp add: header_size_def big_header_def ex_header_def)

lemma big_ready_eq:
  "(PFH5Reader big_file)\<lparr>header := Some big_header, entries := [big_entry],
      file_data_offset := 42\<rparr> = big_ready"
  by (simp add: PFH5Reader_def big_ready_def)

lemma big_read_index: "read_file_index (PFH5Reader big_file) = Inr ([big_entry], big_ready)"
  unfolding read_file_index_known [OF fresh_known [OF big_read_header]]
  using read_index_with_records
          [OF big_not_encrypted big_index_records big_wf,
           unfolded big_entries_of big_offset big_ready_eq]
        big_count
  by blast

text \<open>
  Claim C3 ends with a bound by the physical size of the archive. The reader never
  looks at that size: an archive whose header and index are complete, and whose only
  member is declared with 1000 bytes while the file has 44, is decoded all the same.
\<close>

theorem valid_archive_counterexample:
  "read_header (PFH5Reader big_file) =
     Inr (big_header, (PFH5Reader big_file)\<lparr>header := Some big_header\<rparr>)
   \<and> \<not> index_encrypted big_header
   \<and> file_index_count big_header = 1
   \<and> well_formed big_header big_record
   \<and> seek_read big_file (header_size big_header + pf_index_size big_header)
        (file_index_size big_header) = encode_record big_record
   \<and> read_file_index (PFH5Reader big_file) = Inr ([big_entry], big_ready)
   \<and> length big_file = 44
   \<and> \<not> entry_offset big_entry + entry_size big_entry \<le> length big_file"
proof -
  have "file_index_count big_header = 1" by (simp add: big_header_def)
  moreover have "well_formed big_header big_record" using big_wf by simp
  moreover have "seek_read big_file (header_size big_header + pf_index_size big_header)
        (file_index_size big_header) = encode_record big_record"
    using big_index_records by (simp add: PFH5Reader_def)
  moreover have "length big_file = 44"
    by (simp add: big_file_def big_head_def big_index_def)
  moreover have "\<not> entry_offset big_entry + entry_size big_entry \<le> length big_file"
    by (simp add: big_entry_def big_file_def big_head_def big_index_def)
  ultimately show ?thesis
    using big_read_header big_not_encrypted big_read_index by simp
qed

text \<open>
  Claim C3 as the reader implements it. For an archive whose header decodes, whose
  index is not encrypted and whose index bytes start with \<open>file_index_count\<close>
  well-formed records, decoding the header and then the index yields exactly
  \<open>file_index_count\<close> entries, one per record and in the order of the records, with
  offsets that never decrease. The end of the last member (its offset plus its size,
  rounded when the archive is padded) lies within the file whenever the file holds
  the whole data region.
\<close>

theorem valid_archive_decodes:
  assumes "read_header (PFH5Reader file) = Inr (h, r1)" and "\<not> index_encrypted h"
    and "seek_read file (header_size h + pf_index_size h) (file_index_size h)
           = concat (map encode_record rcs) @ tail"
    and "\<forall>rc \<in> set rcs. well_formed h rc"
    and "length rcs = file_index_count h"
    and "es = entries_of h rcs 0"
  shows "read_file_index (PFH5Reader file) =
           Inr (es, r1\<lparr>entries := es,
                      file_data_offset :=
                        header_size h + pf_index_size h + file_index_size h\<rparr>)
         \<and> length es = file_index_count h
         \<and> map entry_path es = map (\<lambda>rc. path_text (rec_path rc)) rcs
         \<and> map entry_size es = map (\<lambda>rc. le_nat (rec_size rc)) rcs
         \<and> sorted (map entry_offset es)
         \<and> (es \<noteq> [] \<and> header_size h + pf_index_size h + file_index_size h
                          + data_extent h rcs 0 \<le> length file
              \<longrightarrow> next_offset h (entry_offset (last es)) (entry_size (last es))
                    \<le> length file)"
proof -
  have k: "header_known (PFH5Reader file) h r1"
    by (rule fresh_known [OF assms(1)])
  have pf: "pack_file r1 = file"
    using header_known_state [OF k] by (simp add: PFH5Reader_def)
  have c: "length rcs = file_index_count h \<or> (length rcs < file_index_count h \<and> truncated h tail)"
    using assms(5) by simp
  have "read_file_index (PFH5Reader file) =
           Inr (es, r1\<lparr>entries := es,
                      file_data_offset :=
                        header_size h + pf_index_size h + file_index_size h\<rparr>)"
    unfolding read_file_index_known [OF k] assms(6)
    by (rule read_index_with_records [OF assms(2) assms(3) [folded pf] assms(4) c])
  moreover have "length es = file_index_count h"
    by (simp add: assms(5,6))
  moreover have "map entry_path es = map (\<lambda>rc. path_text (rec_path rc)) rcs"
    unfolding assms(6) by (rule entries_of_paths)
  moreover have "map entry_size es = map (\<lambda>rc. le_nat (rec_size rc)) rcs"
    unfolding assms(6) by (rule entries_of_sizes)
  moreover have "sorted (map entry_offset es)"
    unfolding assms(6) by (rule entries_of_sorted)
  moreover have "es \<noteq> [] \<and> header_size h + pf_index_size h + file_index_size h
                          + data_extent h rcs 0 \<le> length file
              \<longrightarrow> next_offset h (entry_offset (last es)) (entry_size (last es))
                    \<le> length file"
  proof
    assume a: "es \<noteq> [] \<and> header_size h + pf_index_size h + file_index_size h
                          + data_extent h rcs 0 \<le> length file"
    then have "rcs \<noteq> []" using assms(6) by auto
    from entries_of_last [OF this, of h 0] a
    show "next_offset h (entry_offset (last es)) (entry_size (last es)) \<le> length file"
      unfolding assms(6) by simp
  qed
  ultimately show ?thesis by blast
qed

lemma ex_extent: "data_extent ex_header ex_records 0 = 5"
  by (simp add: ex_header_def ex_records_def next_offset_def)

theorem valid_archive_decodes_witness:
  "read_header (PFH5Reader ex_file) =
     Inr (ex_header, (PFH5Reader ex_file)\<lparr>header := Some ex_header\<rparr>)
   \<and> \<not> index_encrypted ex_header
   \<and> length ex_records = file_index_count ex_header
   \<and> read_file_index (PFH5Reader ex_file) = Inr (ex_entries, ex_ready)
   \<and> length ex_entries = 2
   \<and> sorted (map entry_offset ex_entries)
   \<and> length ex_file = 57
   \<and> next_offset ex_header (entry_offset (last ex_entries)) (entry_size (last ex_entries)) \<le> 57"
proof -
  have c: "length ex_records = file_index_count ex_header"
    by (simp add: ex_records_def ex_header_def)
  have i: "seek_read ex_file (header_size ex_header + pf_index_size ex_header)
             (file_index_size ex_header) = concat (map encode_record ex_records) @ []"
    using ex_seek_index ex_index_records by simp
  have l: "length ex_file = 57"
    by (simp add: ex_file_def ex_head_def ex_index_def)
  have n: "ex_entries \<noteq> []" and o: "file_index_count ex_header = 2"
    by (simp_all add: ex_entries_def ex_header_def)
  have off: "header_size ex_header + pf_index_size ex_header + file_index_size ex_header = 52"
    by (simp add: header_size_def ex_header_def)
  from valid_archive_decodes
         [OF ex_read_header ex_not_encrypted i ex_records_wf c ex_entries_of [symmetric],
          unfolded l off ex_extent ex_ready_eq o]
  have "read_file_index (PFH5Reader ex_file) = Inr (ex_entries, ex_ready)
     \<and> length ex_entries = 2
     \<and> sorted (map entry_offset ex_entries)
     \<and> next_offset ex_header (entry_offset (last ex_entries)) (entry_size (last ex_entries)) \<le> 57"
    using n by simp
  with ex_read_header ex_not_encrypted c l show ?thesis by simp
qed

lemma slice_head: "b \<le> 32 \<Longrightarrow> slice (seek_read file 0 32) a b = slice file a b"
  by (simp add: slice_def seek_read_def drop_take min_def)

lemma unpack_head:
  assumes "32 \<le> length file" and "a + 4 \<le> 32"
  shows "unpack_u32 (slice (seek_read file 0 32) a (a + 4)) = Inr (le_nat (slice file a (a + 4)))"
proof -
  have "slice (seek_read file 0 32) a (a + 4) = slice file a (a + 4)"
    using assms(2) by (rule slice_head)
  moreover have "length (slice file a (a + 4)) = 4"
    using assms by (intro length_slice) simp
  ultimately show ?thesis by simp
qed

lemma flag_bit20: "((bm::nat) AND 0xFFFFFFF0) AND 0x100000 \<noteq> 0 \<longleftrightarrow> bit bm 20"
proof -
  have "(bm AND 0xFFFFFFF0) AND 0x100000 = bm AND (0xFFFFFFF0 AND 0x100000)"
    by (simp only: and.assoc)
  also have "(0xFFFFFFF0::nat) AND 0x100000 = push_bit 20 1" by simp
  finally show ?thesis by (simp only: bit_iff_and_push_bit_not_eq_0)
qed

lemma flag_bit15: "((bm::nat) AND 0xFFFFFFF0) AND 0x008000 \<noteq> 0 \<longleftrightarrow> bit bm 15"
proof -
  have "(bm AND 0xFFFFFFF0) AND 0x008000 = bm AND (0xFFFFFFF0 AND 0x008000)"
    by (simp only: and.assoc)
  also have "(0xFFFFFFF0::nat) AND 0x008000 = push_bit 15 1" by simp
  finally show ?thesis by (simp only: bit_iff_and_push_bit_not_eq_0)
qed

lemma flag_bit10: "((bm::nat) AND 0xFFFFFFF0) AND 0x000400 \<noteq> 0 \<longleftrightarrow> bit bm 10"
proof -
  have "(bm AND 0xFFFFFFF0) AND 0x000400 = bm AND (0xFFFFFFF0 AND 0x000400)"
    by (simp only: and.assoc)
  also have "(0xFFFFFFF0::nat) AND 0x000400 = push_bit 10 1" by simp
  finally show ?thesis by (simp only: bit_iff_and_push_bit_not_eq_0)
qed

lemma flag_bit4: "((bm::nat) AND 0xFFFFFFF0) AND 0x000010 \<noteq> 0 \<longleftrightarrow> bit bm 4"
proof -
  have "(bm AND 0xFFFFFFF0) AND 0x000010 = bm AND (0xFFFFFFF0 AND 0x000010)"
    by (simp only: and.assoc)
  also have "(0xFFFFFFF0::nat) AND 0x000010 = push_bit 4 1" by simp
  finally show ?thesis by (simp only: bit_iff_and_push_bit_not_eq_0)
qed

lemma low_nibble: "(bm::nat) AND 0x0F = bm mod 16"
proof -
  have "(0x0F::nat) = mask 4" by (simp add: mask_eq_exp_minus_1)
  then have "bm AND 0x0F = take_bit 4 bm" by (simp only: take_bit_eq_mask)
  then show ?thesis by (simp add: take_bit_eq_mod)
qed

lemma read_header_short:
  "length (pack_file r) < 32 \<Longrightarrow> read_header r = Inl ValueError"
  by (simp add: read_header_def seek_read_def)

lemma read_header_magic:
  assumes "32 \<le> length (pack_file r)" and "take 4 (pack_file r) \<noteq> PFH5"
  shows "read_header r = Inl ValueError"
proof -
  have "slice (seek_read (pack_file r) 0 32) 0 4 = take 4 (pack_file r)"
    by (simp add: slice_def seek_read_def)
  with assms show ?thesis by (simp add: read_header_def Let_def seek_read_def)
qed

lemma read_header_ok:
  assumes l: "32 \<le> length (pack_file r)" and m: "take 4 (pack_file r) = PFH5"
  shows "\<exists>h. read_header r = Inr (h, r\<lparr>header := Some h\<rparr>)
      \<and> preamble h = ''PFH5''
      \<and> type_bitmask h = le_nat (slice (pack_file r) 4 8)
      \<and> pf_index_count h = le_nat (slice (pack_file r) 8 12)
      \<and> pf_index_size h = le_nat (slice (pack_file r) 12 16)
      \<and> file_index_count h = le_nat (slice (pack_file r) 16 20)
      \<and> file_index_size h = le_nat (slice (pack_file r) 20 24)
      \<and> timestamp h = le_nat (slice (pack_file r) 24 28)
      \<and> signature_pos h = le_nat (slice (pack_file r) 28 32)
      \<and> pack_type h = type_bitmask h mod 16
      \<and> flags h = type_bitmask h AND 0xFFFFFFF0
      \<and> has_extended_header h = bit (type_bitmask h) 20
      \<and> index_encrypted h = bit (type_bitmask h) 15
      \<and> has_timestamps h = bit (type_bitmask h) 10
      \<and> data_padded h = bit (type_bitmask h) 4"
proof -
  define f where "f = pack_file r"
  have l': "\<not> length (seek_read f 0 32) < 32"
    using l by (simp add: seek_read_def f_def)
  have p: "slice (seek_read f 0 32) 0 4 = PFH5"
    using m by (simp add: slice_def seek_read_def f_def)
  have lf: "32 \<le> length f" using l by (simp add: f_def)
  have u1: "unpack_u32 (slice (seek_read f 0 32) 4 8) = Inr (le_nat (slice f 4 8))"
    using unpack_head [OF lf, of 4] by simp
  have u2: "unpack_u32 (slice (seek_read f 0 32) 8 12) = Inr (le_nat (slice f 8 12))"
    using unpack_head [OF lf, of 8] by simp
  have u3: "unpack_u32 (slice (seek_read f 0 32) 12 16) = Inr (le_nat (slice f 12 16))"
    using unpack_head [OF lf, of 12] by simp
  have u4: "unpack_u32 (slice (seek_read f 0 32) 16 20) = Inr (le_nat (slice f 16 20))"
    using unpack_head [OF lf, of 16] by simp
  have u5: "unpack_u32 (slice (seek_read f 0 32) 20 24) = Inr (le_nat (slice f 20 24))"
    using unpack_head [OF lf, of 20] by simp
  have u6: "unpack_u32 (slice (seek_read f 0 32) 24 28) = Inr (le_nat (slice f 24 28))"
    using unpack_head [OF lf, of 24] by simp
  have u7: "unpack_u32 (slice (seek_read f 0 32) 28 32) = Inr (le_nat (slice f 28 32))"
    using unpack_head [OF lf, of 28] by simp
  have d: "decode_ascii PFH5 = Inr ''PFH5''"
    using decode_magic by (simp add: PFH5_def)
  show ?thesis
    unfolding read_header_def f_def [symmetric] Let_def
    by (simp only: l' p u1 u2 u3 u4 u5 u6 u7 d bind_err_Inr if_False simp_thms)
       (simp add: flag_bit20 [unfolded neq0_conv] flag_bit15 [unfolded neq0_conv]
          flag_bit10 [unfolded neq0_conv] flag_bit4 [unfolded neq0_conv] low_nibble
          FLAG_EXTENDED_HEADER_def FLAG_INDEX_ENCRYPTED_def FLAG_TIMESTAMP_IN_INDEX_def
          FLAG_DATA_PADDED_def)
qed


lemma read_header_prefix:
  "map_sum id fst (read_header (r\<lparr>pack_file := take 32 (pack_file r)\<rparr>))
     = map_sum id fst (read_header r)"
proof -
  have "seek_read (take 32 (pack_file r)) 0 32 = seek_read (pack_file r) 0 32"
    by (simp add: seek_read_def)
  then show ?thesis
    unfolding read_header_def Let_def bind_err_def
    by (simp split: sum.splits)
qed

section \<open>The header\<close>

lemma kind_read_header:
  "read_header (PFH5Reader kind_file) =
     Inr (kind_header, (PFH5Reader kind_file)\<lparr>header := Some kind_header\<rparr>)"
  by (simp add: header_eval kind_file_def kind_header_def)

text \<open>
  Claim C6 gives the archive kind the range 0 to 4. The reader takes the low nibble
  as it is: a header whose type-and-flags field is \<open>0x0000000F\<close> decodes, with kind 15.
\<close>

theorem read_header_kind_counterexample:
  "map_sum id (\<lambda>(h, r'). (pack_type h, type_bitmask h)) (read_header (PFH5Reader kind_file))
     = Inr (15, 15)
   \<and> \<not> (15::nat) \<le> 4"
  by (simp add: kind_read_header kind_header_def)

text \<open>
  Claim C6 as the reader implements it. \<^verbatim>\<open>read_header\<close> depends on the first 32
  bytes of the file only. It fails with \<^verbatim>\<open>ValueError\<close> when the file has fewer than
  32 bytes or does not start with the magic \<^verbatim>\<open>PFH5\<close>. Otherwise it returns a header
  whose seven numbers are the little-endian values of the 4-byte fields at offsets
  4 to 28, whose kind is the low nibble of the type-and-flags field (any value below
  16), and whose four flags are the bits 20, 15, 10 and 4 of that field.
\<close>

theorem read_header_decodes:
  "(length (pack_file r) < 32 \<longrightarrow> read_header r = Inl ValueError)
   \<and> (32 \<le> length (pack_file r) \<and> take 4 (pack_file r) \<noteq> PFH5
        \<longrightarrow> read_header r = Inl ValueError)
   \<and> (32 \<le> length (pack_file r) \<and> take 4 (pack_file r) = PFH5 \<longrightarrow>
        (\<exists>h. read_header r = Inr (h, r\<lparr>header := Some h\<rparr>)
           \<and> type_bitmask h = le_nat (slice (pack_file r) 4 8)
           \<and> pf_index_count h = le_nat (slice (pack_file r) 8 12)
           \<and> pf_index_size h = le_nat (slice (pack_file r) 12 16)
           \<and> file_index_count h = le_nat (slice (pack_file r) 16 20)
           \<and> file_index_size h = le_nat (slice (pack_file r) 20 24)
           \<and> timestamp h = le_nat (slice (pack_file r) 24 28)
           \<and> signature_pos h = le_nat (slice (pack_file r) 28 32)
           \<and> pack_type h = type_bitmask h mod 16 \<and> pack_type h < 16
           \<and> has_extended_header h = bit (type_bitmask h) 20
           \<and> index_encrypted h = bit (type_bitmask h) 15
           \<and> has_timestamps h = bit (type_bitmask h) 10
           \<and> data_padded h = bit (type_bitmask h) 4))
   \<and> map_sum id fst (read_header (r\<lparr>pack_file := take 32 (pack_file r)\<rparr>))
        = map_sum id fst (read_header r)"
proof -
  have a: "length (pack_file r) < 32 \<longrightarrow> read_header r = Inl ValueError"
    using read_header_short by blast
  have b: "32 \<le> length (pack_file r) \<and> take 4 (pack_file r) \<noteq> PFH5
        \<longrightarrow> read_header r = Inl ValueError"
    using read_header_magic by blast
  have c: "32 \<le> length (pack_file r) \<and> take 4 (pack_file r) = PFH5 \<longrightarrow>
        (\<exists>h. read_header r = Inr (h, r\<lparr>header := Some h\<rparr>)
           \<and> type_bitmask h = le_nat (slice (pack_file r) 4 8)
           \<and> pf_index_count h = le_nat (slice (pack_file r) 8 12)
           \<and> pf_index_size h = le_nat (slice (pack_file r) 12 16)
           \<and> file_index_count h = le_nat (slice (pack_file r) 16 20)
           \<and> file_index_size h = le_nat (slice (pack_file r) 20 24)
           \<and> timestamp h = le_nat (slice (pack_file r) 24 28)
           \<and> signature_pos h = le_nat (slice (pack_file r) 28 32)
           \<and> pack_type h = type_bitmask h mod 16 \<and> pack_type h < 16
           \<and> has_extended_header h = bit (type_bitmask h) 20
           \<and> index_encrypted h = bit (type_bitmask h) 15
           \<and> has_timestamps h = bit (type_bitmask h) 10
           \<and> data_padded h = bit (type_bitmask h) 4)"
  proof
    assume "32 \<le> length (pack_file r) \<and> take 4 (pack_file r) = PFH5"
    then have l: "32 \<le> length (pack_file r)" and m: "take 4 (pack_file r) = PFH5"
      by simp_all
    from read_header_ok [OF l m] obtain h where
      h: "read_header r = Inr (h, r\<lparr>header := Some h\<rparr>)"
         "type_bitmask h = le_nat (slice (pack_file r) 4 8)"
         "pf_index_count h = le_nat (slice (pack_file r) 8 12)"
         "pf_index_size h = le_nat (slice (pack_file r) 12 16)"
         "file_index_count h = le_nat (slice (pack_file r) 16 20)"
         "file_index_size h = le_nat (slice (pack_file r) 20 24)"
         "timestamp h = le_nat (slice (pack_file r) 24 28)"
         "signature_pos h = le_nat (slice (pack_file r) 28 32)"
         "pack_type h = type_bitmask h mod 16"
         "has_extended_header h = bit (type_bitmask h) 20"
         "index_encrypted h = bit (type_bitmask h) 15"
         "has_timestamps h = bit (type_bitmask h) 10"
         "data_padded h = bit (type_bitmask h) 4"
      by blast
    from h(9) have "pack_type h < 16" by simp
    with h show "\<exists>h. read_header r = Inr (h, r\<lparr>header := Some h\<rparr>)
           \<and> type_bitmask h = le_nat (slice (pack_file r) 4 8)
           \<and> pf_index_count h = le_nat (slice (pack_file r) 8 12)
           \<and> pf_index_size h = le_nat (slice (pack_file r) 12 16)
           \<and> file_index_count h = le_nat (slice (pack_file r) 16 20)
           \<and> file_index_size h = le_nat (slice (pack_file r) 20 24)
           \<and> timestamp h = le_nat (slice (pack_file r) 24 28)
           \<and> signature_pos h = le_nat (slice (pack_file r) 28 32)
           \<and> pack_type h = type_bitmask h mod 16 \<and> pack_type h < 16
           \<and> has_extended_header h = bit (type_bitmask h) 20
           \<and> index_encrypted h = bit (type_bitmask h) 15
           \<and> has_timestamps h = bit (type_bitmask h) 10
           \<and> data_padded h = bit (type_bitmask h) 4"
      by blast
  qed
  from a b c read_header_prefix [of r] show ?thesis by blast
qed

theorem read_header_decodes_witness:
  "length (pack_file (PFH5Reader [0x50, 0x46, 0x48])) < 32
   \<and> read_header (PFH5Reader [0x50, 0x46, 0x48]) = Inl ValueError
   \<and> 32 \<le> length (pack_file (PFH5Reader pfh4_file))
   \<and> take 4 (pack_file (PFH5Reader pfh4_file)) \<noteq> PFH5
   \<and> read_header (PFH5Reader pfh4_file) = Inl ValueError
   \<and> 32 \<le> length (pack_file (PFH5Reader pad_file))
   \<and> take 4 (pack_file (PFH5Reader pad_file)) = PFH5
   \<and> map_sum id (\<lambda>(h, r'). (pack_type h, data_padded h, index_encrypted h, file_index_count h))
        (read_header (PFH5Reader pad_file)) = Inr (0, True, False, 2)"
proof -
  have s: "length (pack_file (PFH5Reader [0x50, 0x46, 0x48])) < 32"
    by (simp add: PFH5Reader_def)
  have m: "32 \<le> length (pack_file (PFH5Reader pfh4_file))
           \<and> take 4 (pack_file (PFH5Reader pfh4_file)) \<noteq> PFH5"
    by (simp add: PFH5Reader_def pfh4_file_def PFH5_def)
  have p: "32 \<le> length (pack_file (PFH5Reader pad_file))
           \<and> take 4 (pack_file (PFH5Reader pad_file)) = PFH5"
    by (simp add: PFH5Reader_def pad_file_def pad_head_def PFH5_def)
  have f: "slice (pack_file (PFH5Reader pad_file)) 4 8 = [0x10, 0, 0, 0]"
    "slice (pack_file (PFH5Reader pad_file)) 16 20 = [2, 0, 0, 0]"
    by (simp_all add: PFH5Reader_def pad_file_def pad_head_def slice_def)
  have b: "bit (16::nat) 4" "\<not> bit (16::nat) 15"
    by (simp_all add: bit_iff_odd)
  from read_header_decodes [of "PFH5Reader [0x50, 0x46, 0x48]"] s
  have 1: "read_header (PFH5Reader [0x50, 0x46, 0x48]) = Inl ValueError" by blast
  from read_header_decodes [of "PFH5Reader pfh4_file"] m
  have 2: "read_header (PFH5Reader pfh4_file) = Inl ValueError" by blast
  from read_header_decodes [of "PFH5Reader pad_file"] p obtain h where
    h: "read_header (PFH5Reader pad_file) = Inr (h, (PFH5Reader pad_file)\<lparr>header := Some h\<rparr>)"
       "type_bitmask h = le_nat (slice (pack_file (PFH5Reader pad_file)) 4 8)"
       "file_index_count h = le_nat (slice (pack_file (PFH5Reader pad_file)) 16 20)"
       "pack_type h = type_bitmask h mod 16"
       "index_encrypted h = bit (type_bitmask h) 15"
       "data_padded h = bit (type_bitmask h) 4"
    by blast
  have "type_bitmask h = 16" and "file_index_count h = 2"
    using h(2,3) unfolding f by simp_all
  with h b have 3: "map_sum id
          (\<lambda>(h, r'). (pack_type h, data_padded h, index_encrypted h, file_index_count h))
          (read_header (PFH5Reader pad_file)) = Inr (0, True, False, 2)"
    by simp
  from s m p 1 2 3 show ?thesis by blast
qed

lemma takeWhile_hit: "b \<notin> set p \<Longrightarrow> takeWhile (\<lambda>x. x \<noteq> b) (p @ b # rest) = p"
  by (induction p) auto

lemma read_entry_not_Inl: "read_entry h data pos cur \<noteq> Inl e"
proof (cases "truncated h (drop pos data)")
  case True
  from read_entry_truncated [OF True] show ?thesis by simp
next
  case False
  from not_truncated_record [OF False] obtain rc rest where
    "well_formed h rc" "drop pos data = encode_record rc @ rest" by blast
  from read_entry_complete [OF this] show ?thesis by simp
qed

lemma read_entry_Some:
  assumes "read_entry h data pos cur = Inr (Some (entry, pos', cur'))"
  shows "\<exists>rc rest. well_formed h rc \<and> drop pos data = encode_record rc @ rest
           \<and> entry = entry_of h rc cur \<and> pos' = pos + length (encode_record rc)
           \<and> cur' = next_offset h cur (le_nat (rec_size rc))"
proof (cases "truncated h (drop pos data)")
  case True
  from read_entry_truncated [OF True] assms show ?thesis by simp
next
  case False
  from not_truncated_record [OF False] obtain rc rest where
    r: "well_formed h rc" "drop pos data = encode_record rc @ rest" by blast
  from read_entry_complete [OF this] assms r show ?thesis by auto
qed

lemma isl_handle_replace [simp]: "isl (handle_error Replace r) = isl r"
  by simp

lemma utf8_replace_not_isl: "\<not> isl (utf8_decode Replace b)"
  by (induction "Replace" b rule: utf8_decode.induct) (simp_all split: list.splits)


lemma filter_emit:
  "map_sum id (filter P) (emit c r)
     = (if P c then emit c (map_sum id (filter P) r) else map_sum id (filter P) r)"
  by (cases r) (simp_all add: emit_def)

lemma filter_replace:
  "map_sum id (filter (\<lambda>c. c \<noteq> 0xFFFD)) (handle_error Replace r)
     = map_sum id (filter (\<lambda>c. c \<noteq> 0xFFFD)) r"
  by (simp add: filter_emit)

lemma replace_ignore:
  "map_sum id (filter (\<lambda>c. c \<noteq> 0xFFFD)) (utf8_decode Replace b)
     = map_sum id (filter (\<lambda>c. c \<noteq> 0xFFFD)) (utf8_decode Ignore b)"
  by (induction "Ignore" b rule: utf8_decode.induct)
     (simp_all add: filter_emit filter_replace split: list.splits del: handle_error.simps(3))

section \<open>The path of a member\<close>

lemma bad_wf: "well_formed ex_header bad_record"
  by (simp add: well_formed_def bad_record_def ex_header_def)

lemma bad_entry_of: "entry_of ex_header bad_record 0 = bad_entry"
  by (simp add: entry_of_def bad_record_def bad_entry_def path_text_def ex_header_def)

text \<open>
  Claim C8 has the invalid bytes of a path replaced. The reader decodes with
  \<^verbatim>\<open>errors='ignore'\<close>: of the path bytes \<^verbatim>\<open>a\xffb\<close> it keeps \<^verbatim>\<open>ab\<close>, where the
  handler \<^verbatim>\<open>'replace'\<close> gives \<^verbatim>\<open>a\<close>, U+FFFD, \<^verbatim>\<open>b\<close>.
\<close>

theorem path_replaced_counterexample:
  "read_entry ex_header [0x61, 0xFF, 0x62, 0, 1, 0, 0, 0] 0 0 = Inr (Some (bad_entry, 8, 1))
   \<and> entry_path bad_entry = [97, 98]
   \<and> utf8_decode Replace [0x61, 0xFF, 0x62] = Inr [97, 0xFFFD, 98]"
proof -
  have "drop 0 [0x61, 0xFF, 0x62, 0, 1, 0, 0, 0] = encode_record bad_record @ []"
    by (simp add: encode_record_def bad_record_def)
  from read_entry_complete [OF bad_wf this, of 0, unfolded bad_entry_of]
  have "read_entry ex_header [0x61, 0xFF, 0x62, 0, 1, 0, 0, 0] 0 0 = Inr (Some (bad_entry, 8, 1))"
    by (simp add: encode_record_def bad_record_def next_offset_def ex_header_def)
  moreover have "entry_path bad_entry = [97, 98]" by (simp add: bad_entry_def)
  moreover have "utf8_decode Replace [0x61, 0xFF, 0x62] = Inr [97, 0xFFFD, 98]" by simp
  ultimately show ?thesis by blast
qed

text \<open>
  Claim C8 as the reader implements it. Reading a record never fails, whatever its
  path bytes are. The path of the entry is the span from the cursor to the next zero
  byte, decoded as UTF-8 with the handler \<^verbatim>\<open>'ignore'\<close>: it is what the handler
  \<^verbatim>\<open>'replace'\<close> would give without the replacement characters, so invalid bytes are
  dropped.
\<close>

theorem path_decoded_ignoring:
  "(\<forall>e. read_entry h data pos cur \<noteq> Inl e)
   \<and> (\<forall>entry pos' cur'.
         read_entry h data pos cur = Inr (Some (entry, pos', cur')) \<longrightarrow>
           utf8_decode Ignore (takeWhile (\<lambda>x. x \<noteq> 0) (drop pos data)) = Inr (entry_path entry)
           \<and> (\<exists>s. utf8_decode Replace (takeWhile (\<lambda>x. x \<noteq> 0) (drop pos data)) = Inr s
                  \<and> filter (\<lambda>c. c \<noteq> 0xFFFD) s
                      = filter (\<lambda>c. c \<noteq> 0xFFFD) (entry_path entry)))"
proof -
  have a: "\<forall>e. read_entry h data pos cur \<noteq> Inl e"
    using read_entry_not_Inl by blast
  have b: "utf8_decode Ignore (takeWhile (\<lambda>x. x \<noteq> 0) (drop pos data)) = Inr (entry_path entry)
           \<and> (\<exists>s. utf8_decode Replace (takeWhile (\<lambda>x. x \<noteq> 0) (drop pos data)) = Inr s
                  \<and> filter (\<lambda>c. c \<noteq> 0xFFFD) s
                      = filter (\<lambda>c. c \<noteq> 0xFFFD) (entry_path entry))"
    if r: "read_entry h data pos cur = Inr (Some (entry, pos', cur'))" for entry pos' cur'
  proof -
    from read_entry_Some [OF r] obtain rc rest where
      wf: "well_formed h rc" and d: "drop pos data = encode_record rc @ rest"
      and e: "entry = entry_of h rc cur"
      by blast
    have "takeWhile (\<lambda>x. x \<noteq> 0) (drop pos data) = rec_path rc"
      using wf takeWhile_hit [of 0 "rec_path rc" "rec_size rc @ rec_timestamp rc @ rest"]
      by (simp add: d encode_record_def well_formed_def)
    moreover have p: "entry_path entry = path_text (rec_path rc)"
      by (simp add: e entry_of_def)
    moreover obtain s where s: "utf8_decode Replace (rec_path rc) = Inr s"
      using utf8_replace_not_isl [of "rec_path rc"]
      by (cases "utf8_decode Replace (rec_path rc)") simp_all
    moreover have "filter (\<lambda>c. c \<noteq> 0xFFFD) s = filter (\<lambda>c. c \<noteq> 0xFFFD) (entry_path entry)"
      using replace_ignore [of "rec_path rc"] by (simp add: s p utf8_ignore_total)
    ultimately show ?thesis by (simp add: utf8_ignore_total)
  qed
  from a b show ?thesis by blast
qed

theorem path_decoded_ignoring_witness:
  "read_entry ex_header [0x61, 0xFF, 0x62, 0, 1, 0, 0, 0] 0 0 = Inr (Some (bad_entry, 8, 1))
   \<and> takeWhile (\<lambda>x. x \<noteq> 0) (drop 0 [0x61, 0xFF, 0x62, 0, 1, 0, 0, 0 :: byte]) = [0x61, 0xFF, 0x62]
   \<and> utf8_decode Ignore [0x61, 0xFF, 0x62] = Inr (entry_path bad_entry)"
proof -
  have "drop 0 [0x61, 0xFF, 0x62, 0, 1, 0, 0, 0] = encode_record bad_record @ []"
    by (simp add: encode_record_def bad_record_def)
  from read_entry_complete [OF bad_wf this, of 0, unfolded bad_entry_of]
  have r: "read_entry ex_header [0x61, 0xFF, 0x62, 0, 1, 0, 0, 0] 0 0
             = Inr (Some (bad_entry, 8, 1))"
    by (simp add: encode_record_def bad_record_def next_offset_def ex_header_def)
  have t: "takeWhile (\<lambda>x. x \<noteq> 0) (drop 0 [0x61, 0xFF, 0x62, 0, 1, 0, 0, 0 :: byte])
             = [0x61, 0xFF, 0x62]"
    by simp
  from path_decoded_ignoring [of ex_header "[0x61, 0xFF, 0x62, 0, 1, 0, 0, 0]" 0 0] r
  have "utf8_decode Ignore
          (takeWhile (\<lambda>x. x \<noteq> 0) (drop 0 [0x61, 0xFF, 0x62, 0, 1, 0, 0, 0 :: byte]))
        = Inr (entry_path bad_entry)"
    by blast
  then have "utf8_decode Ignore [0x61, 0xFF, 0x62] = Inr (entry_path bad_entry)"
    unfolding t .
  with r t show ?thesis by blast
qed

section \<open>Extracting a member\<close>

lemma length_seek_read: "length (seek_read file pos n) = min n (length file - pos)"
  by (simp add: seek_read_def)

text \<open>
  Claim C4 has a short read fail. The reader returns what \<^verbatim>\<open>f.read\<close> returns: for
  the archive whose member is declared with 1000 bytes and holds two, it returns the
  two bytes.
\<close>

theorem extract_short_counterexample:
  "read_file_index (PFH5Reader big_file) = Inr ([big_entry], big_ready)
   \<and> entry_size big_entry = 1000
   \<and> extract_file big_ready big_entry None Map.empty
       = Inr ([0x68, 0x69], big_ready, Map.empty)"
proof -
  have "entries big_ready \<noteq> []" by (simp add: big_ready_def)
  then have "extract_file big_ready big_entry None Map.empty
       = Inr ([0x68, 0x69], big_ready, Map.empty)"
    by (simp add: extract_file_def)
       (simp add: big_ready_def big_entry_def seek_read_def big_file_def big_head_def
          big_index_def)
  moreover have "entry_size big_entry = 1000" by (simp add: big_entry_def)
  ultimately show ?thesis using big_read_index by blast
qed

text \<open>
  Claim C4 as the reader implements it. On a reader whose entry list is not empty,
  \<^verbatim>\<open>extract_file\<close> never fails and leaves the reader as it is. It returns the bytes
  of the file from position \<open>file_data_offset + offset\<close> on, at most \<open>size\<close> of them:
  exactly \<open>size\<close> bytes when the file holds them, and otherwise the shorter rest of
  the file, with nothing added.
\<close>

theorem extract_file_reads:
  assumes "entries r \<noteq> []"
  shows "\<exists>data fs'.
           extract_file r entry output_path fs = Inr (data, r, fs')
         \<and> data = take (entry_size entry)
                     (drop (file_data_offset r + entry_offset entry) (pack_file r))
         \<and> length data
             = min (entry_size entry)
                 (length (pack_file r) - (file_data_offset r + entry_offset entry))
         \<and> (file_data_offset r + entry_offset entry + entry_size entry \<le> length (pack_file r)
              \<longrightarrow> length data = entry_size entry)
         \<and> fs' = (case output_path of None \<Rightarrow> fs | Some p \<Rightarrow> fs(p \<mapsto> data))"
  using assms by (simp add: extract_file_def seek_read_def Let_def)

theorem extract_file_reads_witness:
  "entries ex_ready \<noteq> []
   \<and> extract_file ex_ready (ex_entries ! 1) None Map.empty = Inr ([0x68, 0x69], ex_ready, Map.empty)
   \<and> entry_size (ex_entries ! 1) = 2"
proof -
  have n: "entries ex_ready \<noteq> []" by (simp add: ex_ready_def ex_entries_def)
  have d: "take (entry_size (ex_entries ! 1))
             (drop (file_data_offset ex_ready + entry_offset (ex_entries ! 1))
                (pack_file ex_ready)) = [0x68, 0x69]"
    by (simp add: ex_ready_def ex_entries_def ex_file_def ex_head_def ex_index_def)
  from extract_file_reads [OF n, of "ex_entries ! 1" None Map.empty]
  have "extract_file ex_ready (ex_entries ! 1) None Map.empty
          = Inr ([0x68, 0x69], ex_ready, Map.empty)"
    unfolding d by auto
  moreover have "entry_size (ex_entries ! 1) = 2" by (simp add: ex_entries_def)
  ultimately show ?thesis using n by blast
qed





lemma categorize_total:
  "snd (categorize lower es m t) = t + sum_list (map entry_size es)"
  by (induction es arbitrary: m t) (simp_all add: Let_def)






section \<open>The inventory\<close>






end
